theory Spec2Isabelle
  imports Main "HOL-Library.Word"
begin

unbundle bit_operations_syntax

section \<open>Data model of the TGA loader\<close>

text \<open>
  The loader (\<^verbatim>\<open>src/irr/src/CImageLoaderTGA.cpp\<close>) works on the engine's fixed-width integer
  types. They are modelled as machine words, so that every addition and multiplication
  of the source wraps around exactly where the C++ one does.
\<close>

type_synonym u8 = "8 word"
type_synonym u16 = "16 word"
type_synonym u32 = "32 word"

text \<open>
  Modelled from the spec: the packed header record \<^verbatim>\<open>STGAHeader\<close> is declared in
  \<^verbatim>\<open>CImageLoaderTGA.h\<close>, which is not among the source files. The fields and their widths
  are those of the binary layout of the specification (18 bytes, little-endian); the names
  are the ones \<^verbatim>\<open>loadImage\<close> and \<^verbatim>\<open>loadCompressedImage\<close> use.
\<close>

record STGAHeader =
  IdLength :: u8
  ColorMapType :: u8
  ImageType :: u8
  FirstEntryIndex :: u16
  ColorMapLength :: u16
  ColorMapEntrySize :: u8
  XOrigin :: u16
  YOrigin :: u16
  ImageWidth :: u16
  ImageHeight :: u16
  PixelDepth :: u8
  ImageDescriptor :: u8

text \<open>
  Modelled from the spec: the byte stream \<^verbatim>\<open>io::IReadFile\<close> is an interface of the engine whose
  implementations are not among the source files (the specification lists the read and seek
  primitives as external collaborators). A stream is the sequence of its bytes, a read
  cursor and the name the diagnostics print. \<^verbatim>\<open>read(buffer, n)\<close> copies the bytes that are
  left, at most \<open>n\<close> of them, and advances the cursor by the number copied; it never
  touches the buffer beyond the bytes it copied.
\<close>

record IReadFile =
  contents :: "u8 list"
  pos :: nat
  fileName :: string

definition getSize :: "IReadFile \<Rightarrow> nat" where
  "getSize f = length (contents f)"

definition remaining :: "IReadFile \<Rightarrow> nat" where
  "remaining f = length (contents f) - pos f"

definition file_read :: "nat \<Rightarrow> IReadFile \<Rightarrow> u8 list \<times> IReadFile" where
  "file_read sizeToRead f =
     (let bs = take sizeToRead (drop (pos f) (contents f))
      in (bs, f\<lparr>pos := pos f + length bs\<rparr>))"

text \<open>
  \<^verbatim>\<open>seek(finalPos, relativeMovement)\<close> moves the cursor to an absolute position, or by an
  offset; a target before the start or behind the end of the stream is refused and leaves
  the cursor where it was. The result says whether the cursor moved.
\<close>

definition file_seek :: "int \<Rightarrow> bool \<Rightarrow> IReadFile \<Rightarrow> bool \<times> IReadFile" where
  "file_seek finalPos relativeMovement f =
     (let target = (if relativeMovement then int (pos f) + finalPos else finalPos)
      in if 0 \<le> target \<and> target \<le> int (length (contents f))
         then (True, f\<lparr>pos := nat target\<rparr>)
         else (False, f))"

text \<open>
  A buffer obtained from \<^verbatim>\<open>new u8[n]\<close> is not initialised: a cell is \<open>None\<close> until the
  first store into it. A load or a store outside a buffer is undefined behaviour in C++;
  the model makes it a value, the fault, which ends the decode. The two other faults
  belong to \<^verbatim>\<open>loadImage\<close>: a header that the stream did not fill (its fields are read
  uninitialised), and the exception of \<^verbatim>\<open>new u8[n]\<close> for a negative \<open>n\<close>, which nothing
  catches.
\<close>

datatype fault =
    OutOfBoundsRead nat
  | OutOfBoundsWrite nat
  | UninitialisedHeader
  | BadArrayNewLength

datatype ELOG_LEVEL = ELL_WARNING | ELL_ERROR

type_synonym log_entry = "string \<times> string \<times> ELOG_LEVEL"

text \<open>
  \<^verbatim>\<open>file->read(&data[off], n)\<close> seen from the buffer: the bytes \<open>bs\<close> the stream delivered are
  stored at the offsets \<open>off, off + 1, \<dots>\<close>. The pointer is a 64-bit address, so these
  offsets do not wrap.
\<close>

definition read_into :: "nat \<Rightarrow> u8 list \<Rightarrow> u8 option list \<Rightarrow> fault + u8 option list" where
  "read_into off bs d =
     (if bs = [] then Inr d
      else if off + length bs \<le> length d
        then Inr (take off d @ map Some bs @ drop (off + length bs) d)
      else Inl (OutOfBoundsWrite (max off (length d))))"

section \<open>The run-length decompressor\<close>

lemma unat_succ_less:
  fixes e b :: "'a::len word"
  assumes "e < b"
  shows "unat (e + 1) = Suc (unat e)"
proof -
  have "unat e < unat b" using assms by (simp add: word_less_nat_alt)
  moreover have "unat b < 2 ^ LENGTH('a)" by (rule unsigned_less)
  ultimately have "unat e + unat (1::'a word) < 2 ^ LENGTH('a)" by (simp, arith)
  then have "unat (e + 1) = unat e + unat (1::'a word)" by (rule unat_add_lem [THEN iffD1])
  then show ?thesis by simp
qed

text \<open>
  The two constants \<^verbatim>\<open>loadCompressedImage\<close> computes first. \<^verbatim>\<open>header.PixelDepth / 8\<close> is
  an integer division; the product \<^verbatim>\<open>ImageHeight * ImageWidth\<close> of two promoted 16-bit values
  is multiplied with the \<^verbatim>\<open>u32\<close> \<^verbatim>\<open>bytesPerPixel\<close> and stored in a \<^verbatim>\<open>u32\<close>, that is, taken
  modulo \<open>2 ^ 32\<close>. (Beyond \<open>2 ^ 31 - 1\<close> the \<^verbatim>\<open>int\<close> product itself overflows; the
  model wraps there too. No input used below reaches that.)
\<close>

definition bytesPerPixel :: "STGAHeader \<Rightarrow> u32" where
  "bytesPerPixel header = ucast (PixelDepth header div 8)"

definition imageSize :: "STGAHeader \<Rightarrow> u32" where
  "imageSize header =
     ucast (ImageHeight header) * ucast (ImageWidth header) * bytesPerPixel header"

text \<open>
  The innermost loop, \<^verbatim>\<open>for (elementCounter = 0; elementCounter < bytesPerPixel; ...)\<close>, copies
  one pixel inside the buffer, a byte at a time. Both indices are \<^verbatim>\<open>u32\<close> sums.
\<close>

function copy_elements ::
  "STGAHeader \<Rightarrow> u32 \<Rightarrow> u32 \<Rightarrow> u32 \<Rightarrow> u8 option list \<Rightarrow> fault + u8 option list" where
  "copy_elements header current dataOffset elementCounter d =
     (if elementCounter < bytesPerPixel header then
        (let src = unat (dataOffset + elementCounter);
             dst = unat (current + elementCounter)
         in if length d \<le> src then Inl (OutOfBoundsRead src)
            else if length d \<le> dst then Inl (OutOfBoundsWrite dst)
            else copy_elements header current dataOffset (elementCounter + 1)
                   (d[dst := d ! src]))
      else Inr d)"
  by pat_completeness auto
termination
proof (relation "measure (\<lambda>(h, c, off, e, d). unat (bytesPerPixel h) - unat e)")
  show "wf (measure (\<lambda>(h, c, off, e, d). unat (bytesPerPixel h) - unat e))" by simp
next
  fix header :: STGAHeader and current dataOffset elementCounter :: u32
  fix d :: "u8 option list" and x xa
  assume lt: "elementCounter < bytesPerPixel header"
  have "unat (elementCounter + 1) = Suc (unat elementCounter)"
    using lt by (rule unat_succ_less)
  moreover have "unat elementCounter < unat (bytesPerPixel header)"
    using lt by (simp add: word_less_nat_alt)
  ultimately show "((header, current, dataOffset, elementCounter + 1, d[xa := d ! x]),
          header, current, dataOffset, elementCounter, d)
         \<in> measure (\<lambda>(h, c, off, e, d). unat (bytesPerPixel h) - unat e)"
    by simp
qed

declare copy_elements.simps [simp del]

text \<open>
  The loop over \<^verbatim>\<open>counter\<close> that repeats the sample of a run packet. A repetition that does
  not fit is skipped, and the offset advances all the same.
\<close>

function run_copy ::
  "STGAHeader \<Rightarrow> u8 \<Rightarrow> u32 \<Rightarrow> u32 \<Rightarrow> u32 \<Rightarrow> u8 option list \<Rightarrow> fault + (u32 \<times> u8 option list)" where
  "run_copy header chunkheader dataOffset counter current d =
     (if counter < ucast chunkheader then
        (if current + bytesPerPixel header \<le> imageSize header then
           (case copy_elements header current dataOffset 0 d of
              Inl e \<Rightarrow> Inl e
            | Inr d' \<Rightarrow>
                run_copy header chunkheader dataOffset (counter + 1)
                  (current + bytesPerPixel header) d')
         else run_copy header chunkheader dataOffset (counter + 1)
                (current + bytesPerPixel header) d)
      else Inr (current, d))"
  by pat_completeness auto
termination
proof (relation "measure (\<lambda>(h, ch, off, k, c, d). unat (ucast ch :: u32) - unat k)")
  show "wf (measure (\<lambda>(h, ch, off, k, c, d). unat (ucast ch :: u32) - unat k))" by simp
next
  fix header :: STGAHeader and chunkheader :: u8 and dataOffset counter current :: u32
  fix d d' :: "u8 option list"
  assume lt: "counter < ucast chunkheader"
  have s: "unat (counter + 1) = Suc (unat counter)" using lt by (rule unat_succ_less)
  have l: "unat counter < unat (ucast chunkheader :: u32)"
    using lt by (simp add: word_less_nat_alt)
  show "((header, chunkheader, dataOffset, counter + 1, current + bytesPerPixel header, d'),
         header, chunkheader, dataOffset, counter, current, d)
        \<in> measure (\<lambda>(h, ch, off, k, c, d). unat (ucast ch :: u32) - unat k)"
    using s l by simp
  show "((header, chunkheader, dataOffset, counter + 1, current + bytesPerPixel header, d),
         header, chunkheader, dataOffset, counter, current, d)
        \<in> measure (\<lambda>(h, ch, off, k, c, d). unat (ucast ch :: u32) - unat k)"
    using s l by simp
qed

declare run_copy.simps [simp del]

text \<open>
  The state of the packet loop: the stream, the output buffer, the write offset and the
  diagnostics logged so far (\<^verbatim>\<open>os::Printer::log\<close> with message, file name and level).
\<close>

record rle_state =
  tgafile :: IReadFile
  data :: "u8 option list"
  currentByte :: u32
  messages :: "log_entry list"

datatype 'a flow = Continue 'a | Break 'a

text \<open>
  \<^verbatim>\<open>u8 chunkheader = 0; file->read(&chunkheader, sizeof(u8));\<close> At the end of the stream
  nothing is read and the header byte stays 0.
\<close>

definition read_chunkheader :: "IReadFile \<Rightarrow> u8 \<times> IReadFile" where
  "read_chunkheader f =
     (let (hb, f1) = file_read 1 f
      in (case hb of [] \<Rightarrow> 0 | b # _ \<Rightarrow> b, f1))"

text \<open>The two warnings of the decompressor, as \<^verbatim>\<open>os::Printer::log\<close> receives them.\<close>

definition raw_warning :: "IReadFile \<Rightarrow> log_entry" where
  "raw_warning f =
     (''Compressed TGA file RAW chunk tries writing beyond buffer'', fileName f, ELL_WARNING)"

definition rle_warning :: "IReadFile \<Rightarrow> log_entry" where
  "rle_warning f =
     (''Compressed TGA file RLE headertries writing beyond buffer'', fileName f, ELL_WARNING)"

text \<open>The branch \<^verbatim>\<open>chunkheader < 128\<close>: a raw packet.\<close>

definition raw_chunk :: "STGAHeader \<Rightarrow> u8 \<Rightarrow> IReadFile \<Rightarrow> rle_state \<Rightarrow> fault + rle_state flow" where
  "raw_chunk header chunkheader0 f1 st =
     (let chunkheader = chunkheader0 + 1;
          bytesToRead = bytesPerPixel header * ucast chunkheader
      in if currentByte st + bytesToRead \<le> imageSize header then
           (let (bs, f2) = file_read (unat bytesToRead) f1
            in case read_into (unat (currentByte st)) bs (data st) of
                 Inl e \<Rightarrow> Inl e
               | Inr d' \<Rightarrow>
                   Inr (Continue (st\<lparr>tgafile := f2, data := d',
                          currentByte := currentByte st + bytesToRead\<rparr>)))
         else Inr (Break (st\<lparr>tgafile := f1,
                messages := messages st @ [raw_warning f1]\<rparr>)))"

text \<open>The other branch: a run packet.\<close>

definition rle_chunk :: "STGAHeader \<Rightarrow> u8 \<Rightarrow> IReadFile \<Rightarrow> rle_state \<Rightarrow> fault + rle_state flow" where
  "rle_chunk header chunkheader0 f1 st =
     (let chunkheader = chunkheader0 - 127;
          dataOffset = currentByte st
      in if dataOffset + bytesPerPixel header < imageSize header then
           (let (bs, f2) = file_read (unat (bytesPerPixel header)) f1
            in case read_into (unat dataOffset) bs (data st) of
                 Inl e \<Rightarrow> Inl e
               | Inr d' \<Rightarrow>
                   (case run_copy header chunkheader dataOffset 1
                           (currentByte st + bytesPerPixel header) d' of
                      Inl e \<Rightarrow> Inl e
                    | Inr (c', d'') \<Rightarrow>
                        Inr (Continue (st\<lparr>tgafile := f2, data := d'',
                               currentByte := c'\<rparr>))))
         else Inr (Break (st\<lparr>tgafile := f1,
                messages := messages st @ [rle_warning f1]\<rparr>)))"

text \<open>One iteration of the \<^verbatim>\<open>while\<close> loop; \<open>Break\<close> is the \<^verbatim>\<open>break\<close> statement.\<close>

definition rle_packet :: "STGAHeader \<Rightarrow> rle_state \<Rightarrow> fault + rle_state flow" where
  "rle_packet header st =
     (let (chunkheader, f1) = read_chunkheader (tgafile st)
      in if chunkheader < 128 then raw_chunk header chunkheader f1 st
         else rle_chunk header chunkheader f1 st)"

subsection \<open>Termination of the packet loop\<close>

text \<open>
  While the stream has bytes, every iteration that continues consumes at least the header
  byte. Once it is exhausted every header byte reads as 0, a raw packet of one pixel, and
  the offset moves by \<^verbatim>\<open>bytesPerPixel\<close> modulo \<open>2 ^ 32\<close>. The image size is a multiple of
  \<^verbatim>\<open>bytesPerPixel\<close> modulo \<open>2 ^ 32\<close>, so these steps reach an offset that is not below the
  image size, also when the check of the raw packet is passed by a sum that wrapped around.
  \<open>steps_left\<close> counts them.
\<close>

definition steps_left :: "STGAHeader \<Rightarrow> u32 \<Rightarrow> nat" where
  "steps_left header c = (LEAST j. imageSize header \<le> c + of_nat j * bytesPerPixel header)"

lemma imageSize_reachable:
  "\<exists>j. imageSize header \<le> c + of_nat j * bytesPerPixel header"
proof (cases "imageSize header \<le> c")
  case True
  then show ?thesis by (intro exI [of _ 0]) simp
next
  case False
  define b where "b = bytesPerPixel header"
  define m :: u32 where "m = ucast (ImageHeight header) * ucast (ImageWidth header)"
  define S where "S = imageSize header"
  have S: "S = m * b" by (simp add: S_def m_def b_def imageSize_def)
  have cS: "unat c < unat S" using False by (simp add: S_def word_le_nat_alt)
  have b0: "unat b \<noteq> 0"
  proof
    assume "unat b = 0"
    then have "b = 0" by (simp add: unat_eq_0)
    then have "S = 0" by (simp add: S)
    with cS show False by simp
  qed
  define g where "g = gcd (unat b) (2 ^ 32)"
  obtain x y where bez: "unat b * x = 2 ^ 32 * y + g"
    using bezout_nat [OF b0, of "2 ^ 32"] by (auto simp: g_def)
  have g_pos: "0 < g" using b0 by (simp add: g_def)
  have g_M: "g dvd 2 ^ 32" by (simp add: g_def)
  have g_b: "g dvd unat b" by (simp add: g_def)
  have "unat S = (unat m * unat b) mod 2 ^ 32"
    by (simp add: S unat_word_ariths)
  then have g_S: "g dvd unat S"
    using g_M g_b by (simp add: dvd_mod)
  have wx: "of_nat x * b = (of_nat g :: u32)"
  proof -
    have "(of_nat (unat b * x) :: u32) = of_nat (2 ^ 32 * y + g)" by (simp only: bez)
    also have "\<dots> = of_nat g"
      unfolding word_of_nat_eq_iff take_bit_eq_mod by simp
    finally have "b * of_nat x = (of_nat g :: u32)" by simp
    then show ?thesis by (simp add: mult.commute)
  qed
  have S_lt: "unat S < 2 ^ 32" using unsigned_less [of S] by simp
  have room: "unat S + g \<le> 2 ^ 32"
  proof -
    from g_M obtain p where p: "2 ^ 32 = g * p" ..
    from g_S obtain q where q: "unat S = g * q" ..
    have "g * q < g * p" using S_lt p q by simp
    then have "q < p" using g_pos by simp
    then have "Suc q \<le> p" by simp
    then have "g * Suc q \<le> g * p" by (rule mult_le_mono2)
    then show ?thesis using p q by simp
  qed
  define t where "t = (unat S - unat c + g - 1) div g"
  define T where "T = unat c + t * g"
  have tg_lo: "unat S - unat c \<le> t * g"
  proof -
    have "(unat S - unat c + g - 1) mod g < g" using g_pos by simp
    moreover have "t * g + (unat S - unat c + g - 1) mod g = unat S - unat c + g - 1"
      by (simp add: t_def)
    ultimately show ?thesis by linarith
  qed
  have tg_hi: "t * g < unat S - unat c + g"
  proof -
    have "t * g \<le> unat S - unat c + g - 1" by (simp add: t_def)
    then show ?thesis using g_pos by linarith
  qed
  have T_lo: "unat S \<le> T" using tg_lo cS by (simp add: T_def)
  have T_hi: "T < 2 ^ 32" using tg_hi cS room by (simp add: T_def)
  have "c + of_nat (t * x) * b = c + of_nat t * (of_nat x * b)" by simp
  also have "\<dots> = of_nat (unat c) + of_nat (t * g)" by (simp add: wx)
  also have "\<dots> = (of_nat T :: u32)" by (simp add: T_def)
  finally have eq: "c + of_nat (t * x) * b = (of_nat T :: u32)" .
  have "unat (of_nat T :: u32) = T" using T_hi by (simp add: unat_of_nat)
  then have "S \<le> (of_nat T :: u32)" using T_lo by (simp add: word_le_nat_alt)
  then have "S \<le> c + of_nat (t * x) * b" by (simp only: eq)
  then show ?thesis unfolding S_def b_def by blast
qed


lemma steps_left_decreases:
  assumes "c < imageSize header"
  shows "steps_left header (c + bytesPerPixel header) < steps_left header c"
proof -
  let ?P = "\<lambda>j. imageSize header \<le> c + of_nat j * bytesPerPixel header"
  obtain j where j: "?P j" using imageSize_reachable by blast
  have least: "?P (steps_left header c)"
    unfolding steps_left_def using j by (rule LeastI)
  have "steps_left header c \<noteq> 0"
  proof
    assume "steps_left header c = 0"
    with least have "imageSize header \<le> c" by simp
    with assms show False by simp
  qed
  then obtain k where k: "steps_left header c = Suc k" by (cases "steps_left header c") auto
  have "imageSize header \<le> (c + bytesPerPixel header) + of_nat k * bytesPerPixel header"
    using least by (simp add: k algebra_simps)
  then have "steps_left header (c + bytesPerPixel header) \<le> k"
    unfolding steps_left_def by (rule Least_le)
  then show ?thesis by (simp add: k)
qed

lemma file_read_remaining:
  "remaining (snd (file_read n f)) \<le> remaining f"
  by (simp add: file_read_def remaining_def Let_def)

lemma file_read_one:
  assumes "0 < remaining f"
  shows "remaining (snd (file_read 1 f)) < remaining f"
  using assms by (cases "drop (pos f) (contents f)") (auto simp: file_read_def remaining_def Let_def)

lemma file_read_exhausted:
  assumes "remaining f = 0"
  shows "file_read n f = ([], f)"
  using assms by (simp add: file_read_def remaining_def Let_def)

lemma raw_chunk_file:
  assumes "raw_chunk header ch f1 st = Inr (Continue st')"
  shows "\<exists>n. tgafile st' = snd (file_read n f1)"
  using assms
  by (auto simp: raw_chunk_def Let_def split: if_splits prod.splits sum.splits)
     (metis snd_conv)

lemma rle_chunk_file:
  assumes "rle_chunk header ch f1 st = Inr (Continue st')"
  shows "\<exists>n. tgafile st' = snd (file_read n f1)"
  using assms
  by (auto simp: rle_chunk_def Let_def split: if_splits prod.splits sum.splits)
     (metis snd_conv)

lemma rle_packet_file:
  assumes "rle_packet header st = Inr (Continue st')"
  shows "\<exists>n. tgafile st' = snd (file_read n (snd (read_chunkheader (tgafile st))))"
  using assms raw_chunk_file rle_chunk_file
  by (auto simp: rle_packet_def split: prod.splits if_splits)

lemma read_chunkheader_snd: "snd (read_chunkheader f) = snd (file_read 1 f)"
  by (simp add: read_chunkheader_def split: prod.splits)

lemma read_chunkheader_exhausted:
  assumes "remaining f = 0"
  shows "read_chunkheader f = (0, f)"
  by (simp add: read_chunkheader_def file_read_exhausted [OF assms])

lemma raw_chunk_exhausted:
  assumes "remaining f = 0" and "raw_chunk header 0 f st = Inr (Continue st')"
  shows "tgafile st' = f \<and> currentByte st' = currentByte st + bytesPerPixel header"
  using assms(2)
  by (auto simp: raw_chunk_def Let_def file_read_exhausted [OF assms(1)] read_into_def
           split: if_splits)

lemma rle_packet_progress:
  assumes "rle_packet header st = Inr (Continue st')"
  shows "remaining (tgafile st') < remaining (tgafile st) \<or>
         (remaining (tgafile st) = 0 \<and> remaining (tgafile st') = 0 \<and>
          currentByte st' = currentByte st + bytesPerPixel header)"
proof (cases "remaining (tgafile st) = 0")
  case True
  have "raw_chunk header 0 (tgafile st) st = Inr (Continue st')"
    using assms by (simp add: rle_packet_def read_chunkheader_exhausted [OF True])
  from raw_chunk_exhausted [OF True this] True show ?thesis by simp
next
  case False
  obtain n where n: "tgafile st' = snd (file_read n (snd (file_read 1 (tgafile st))))"
    using rle_packet_file [OF assms] by (auto simp: read_chunkheader_snd)
  have "remaining (tgafile st') \<le> remaining (snd (file_read 1 (tgafile st)))"
    unfolding n by (rule file_read_remaining)
  also have "\<dots> < remaining (tgafile st)"
    using False by (intro file_read_one) simp
  finally show ?thesis by simp
qed

function rle_loop :: "STGAHeader \<Rightarrow> rle_state \<Rightarrow> fault + rle_state" where
  "rle_loop header st =
     (if currentByte st < imageSize header then
        (case rle_packet header st of
           Inl e \<Rightarrow> Inl e
         | Inr (Continue st') \<Rightarrow> rle_loop header st'
         | Inr (Break st') \<Rightarrow> Inr st')
      else Inr st)"
  by pat_completeness auto
termination
proof (relation "inv_image (less_than <*lex*> less_than)
    (\<lambda>(h, st). (remaining (tgafile st), steps_left h (currentByte st)))")
  show "wf (inv_image (less_than <*lex*> less_than)
    (\<lambda>(h, st). (remaining (tgafile st), steps_left h (currentByte st))))"
    by (intro wf_inv_image wf_lex_prod wf_less_than)
next
  fix header :: STGAHeader and st st' :: rle_state and x
  assume c: "currentByte st < imageSize header"
    and p: "rle_packet header st = Inr x" and x: "x = Continue st'"
  from p x have "rle_packet header st = Inr (Continue st')" by simp
  from rle_packet_progress [OF this]
  have "remaining (tgafile st') < remaining (tgafile st) \<or>
        remaining (tgafile st') = remaining (tgafile st) \<and>
        steps_left header (currentByte st') < steps_left header (currentByte st)"
  proof
    assume "remaining (tgafile st') < remaining (tgafile st)"
    then show ?thesis ..
  next
    assume a: "remaining (tgafile st) = 0 \<and> remaining (tgafile st') = 0 \<and>
      currentByte st' = currentByte st + bytesPerPixel header"
    then have "steps_left header (currentByte st') < steps_left header (currentByte st)"
      using steps_left_decreases [OF c] by (simp only:)
    with a show ?thesis by simp
  qed
  then show "((header, st'), header, st) \<in> inv_image (less_than <*lex*> less_than)
    (\<lambda>(h, st). (remaining (tgafile st), steps_left h (currentByte st)))"
    by (simp only: in_inv_image in_lex_prod less_than_iff prod.case)
qed

declare rle_loop.simps [simp del]

text \<open>
  \<^verbatim>\<open>loadCompressedImage\<close>: the buffer is allocated with \<^verbatim>\<open>new u8[imageSize]\<close> and the loop
  starts at offset 0. The result is the final state (the buffer is its \<open>data\<close>), or
  the fault.
\<close>

definition loadCompressedImage :: "IReadFile \<Rightarrow> STGAHeader \<Rightarrow> fault + rle_state" where
  "loadCompressedImage f header =
     rle_loop header
       \<lparr>tgafile = f, data = replicate (unat (imageSize header)) None,
        currentByte = 0, messages = []\<rparr>"


section \<open>Loading an image\<close>

subsection \<open>What the loader calls\<close>

text \<open>
  Modelled from the spec: \<^verbatim>\<open>checkImageDimensions\<close> is a helper of the loader interface
  (\<^verbatim>\<open>IImageLoader.h\<close>) that is not among the source files. The specification says that it
  validates that width and height are each within the configured maximum; the maximum is
  a parameter here.
\<close>

definition checkImageDimensions :: "nat \<Rightarrow> u32 \<Rightarrow> u32 \<Rightarrow> bool" where
  "checkImageDimensions maxdim width height = (unat width \<le> maxdim \<and> unat height \<le> maxdim)"

text \<open>
  Modelled from the spec: the colour class \<^verbatim>\<open>video::SColor\<close> (\<^verbatim>\<open>SColor.h\<close>) is not among the
  source files. Its canonical 32-bit form is the ARGB word
  \<open>a << 24 | r << 16 | g << 8 | b\<close>. The sentinel of the palette is
  \<^verbatim>\<open>video::SColor(255, 255, 0, 205).color\<close>.
\<close>

definition SColor :: "u32 \<Rightarrow> u32 \<Rightarrow> u32 \<Rightarrow> u32 \<Rightarrow> u32" where
  "SColor a r g b =
     push_bit 24 (a AND 0xff) OR push_bit 16 (r AND 0xff) OR push_bit 8 (g AND 0xff)
       OR (b AND 0xff)"

definition errorCol :: u32 where
  "errorCol = SColor 255 255 0 205"

text \<open>
  Modelled from the spec: the expansion \<^verbatim>\<open>A1R5G5B5toA8R8G8B8\<close> that
  \<^verbatim>\<open>CColorConverter::convert_A1R5G5B5toA8R8G8B8\<close> applies to every 16-bit entry
  (\<^verbatim>\<open>CColorConverter.cpp\<close>, \<^verbatim>\<open>SColor.h\<close>) is not among the source files. The specification
  calls it a 1-bit-alpha/5-5-5 expansion: the alpha bit becomes \<open>0xFF\<close> or \<open>0x00\<close>, and
  each 5-bit channel is extended to 8 bits by repeating its high bits below it.
\<close>

definition A1R5G5B5toA8R8G8B8 :: "u16 \<Rightarrow> u32" where
  "A1R5G5B5toA8R8G8B8 color =
     (let c = (ucast color :: u32)
      in (if c AND 0x8000 = 0 then 0 else 0xFF000000)
         OR push_bit 9 (c AND 0x7C00) OR push_bit 4 (c AND 0x7000)
         OR push_bit 6 (c AND 0x03E0) OR push_bit 1 (c AND 0x0380)
         OR push_bit 3 (c AND 0x001F) OR drop_bit 2 (c AND 0x001C))"

text \<open>
  The pixel converters of \<^verbatim>\<open>CColorConverter\<close> and the image class \<^verbatim>\<open>CImage\<close> are outside the
  loader as well. An image is modelled by what the loader decides about it: its colour
  format, its dimension, and the conversion that fills it, with the arguments the loader
  passes: the raw pixel buffer, the palette where there is one, and the flags.
\<close>

datatype ECOLOR_FORMAT = ECF_A1R5G5B5 | ECF_R8G8B8 | ECF_A8R8G8B8

datatype conversion =
    convert8BitTo24Bit "u8 option list" bool
  | convert8BitTo32Bit "u8 option list" "u32 option list option" bool
  | convert16BitTo16Bit "u8 option list" bool
  | convert24BitTo24Bit "u8 option list" bool bool
  | convert32BitTo32Bit "u8 option list" bool

record IImage =
  format :: ECOLOR_FORMAT
  dimension :: "u32 \<times> u32"
  filled_by :: conversion

text \<open>
  The loader's own buffers, and what it does with them: \<^verbatim>\<open>new\<close> and \<^verbatim>\<open>delete[]\<close>, in the
  order of execution. (\<^verbatim>\<open>delete[]\<close> of a null pointer does nothing and leaves no event.)
\<close>

datatype buffer = Palette | ColorMap | PixelData

datatype heap_event = New buffer nat | Delete buffer

record load_result =
  result :: "IImage option"
  logged :: "log_entry list"
  heap :: "heap_event list"

subsection \<open>The header\<close>

text \<open>
  \<^verbatim>\<open>file->read(&header, sizeof(STGAHeader))\<close> fills the packed record from 18 bytes; the
  16-bit fields are little-endian (on a big-endian host the loader swaps them after the
  read, with the same result). A stream with fewer than 18 bytes leaves fields of the
  local variable uninitialised.
\<close>

definition le16 :: "u8 \<Rightarrow> u8 \<Rightarrow> u16" where
  "le16 lo hi = push_bit 8 (ucast hi) OR ucast lo"

definition STGAHeader_of_bytes :: "u8 list \<Rightarrow> STGAHeader" where
  "STGAHeader_of_bytes bs =
     \<lparr>IdLength = bs ! 0, ColorMapType = bs ! 1, ImageType = bs ! 2,
      FirstEntryIndex = le16 (bs ! 3) (bs ! 4),
      ColorMapLength = le16 (bs ! 5) (bs ! 6),
      ColorMapEntrySize = bs ! 7,
      XOrigin = le16 (bs ! 8) (bs ! 9), YOrigin = le16 (bs ! 10) (bs ! 11),
      ImageWidth = le16 (bs ! 12) (bs ! 13), ImageHeight = le16 (bs ! 14) (bs ! 15),
      PixelDepth = bs ! 16, ImageDescriptor = bs ! 17\<rparr>"

definition read_header :: "IReadFile \<Rightarrow> fault + STGAHeader \<times> IReadFile" where
  "read_header f =
     (let (bs, f1) = file_read 18 f
      in if length bs < 18 then Inl UninitialisedHeader
         else Inr (STGAHeader_of_bytes bs, f1))"

subsection \<open>The palette\<close>

text \<open>
  A buffer filled by a read that came up short keeps uninitialised cells at its end.
\<close>

definition read_buffer :: "nat \<Rightarrow> IReadFile \<Rightarrow> u8 option list \<times> IReadFile" where
  "read_buffer n f =
     (let (bs, f1) = file_read n f
      in (map Some bs @ replicate (n - length bs) None, f1))"

text \<open>
  \<^verbatim>\<open>for (u16 i = header.ColorMapLength; i < paletteSize; ++i) palette[i] = errorCol;\<close>
\<close>

function fill_errorCol :: "u16 \<Rightarrow> u16 \<Rightarrow> u32 option list \<Rightarrow> u32 option list" where
  "fill_errorCol i paletteSize palette =
     (if i < paletteSize
      then fill_errorCol (i + 1) paletteSize (palette[unat i := Some errorCol])
      else palette)"
  by pat_completeness auto
termination
proof (relation "measure (\<lambda>(i, n, p). unat n - unat i)")
  show "wf (measure (\<lambda>(i, n, p). unat n - unat i))" by simp
next
  fix i paletteSize :: u16 and palette :: "u32 option list"
  assume lt: "i < paletteSize"
  have "unat (i + 1) = Suc (unat i)" using lt by (rule unat_succ_less)
  moreover have "unat i < unat paletteSize" using lt by (simp add: word_less_nat_alt)
  ultimately show "((i + 1, paletteSize, palette[unat i := Some errorCol]), i, paletteSize, palette)
      \<in> measure (\<lambda>(i, n, p). unat n - unat i)"
    by simp
qed

declare fill_errorCol.simps [simp del]

text \<open>
  The three conversions of colour-map entries. An entry built from an uninitialised byte
  is itself indeterminate (\<open>None\<close>). The loops run over \<open>i = 0, \<dots>, n - 1\<close>; the
  colour map has \<open>n\<close> entries of 2, 3 or 4 bytes, so every index is inside it.
\<close>

definition bgr8 :: "u8 option \<Rightarrow> u8 option \<Rightarrow> u8 option \<Rightarrow> u32 option" where
  "bgr8 b g r =
     (case (b, g, r) of
        (Some b, Some g, Some r) \<Rightarrow>
          Some (0xff000000 OR push_bit 16 (ucast r) OR push_bit 8 (ucast g) OR ucast b)
      | _ \<Rightarrow> None)"

definition bgra8 :: "u8 option \<Rightarrow> u8 option \<Rightarrow> u8 option \<Rightarrow> u8 option \<Rightarrow> u32 option" where
  "bgra8 b g r a =
     (case (b, g, r, a) of
        (Some b, Some g, Some r, Some a) \<Rightarrow>
          Some (push_bit 24 (ucast a) OR push_bit 16 (ucast r) OR push_bit 8 (ucast g)
                OR ucast b)
      | _ \<Rightarrow> None)"

definition a1r5g5b5 :: "u8 option \<Rightarrow> u8 option \<Rightarrow> u32 option" where
  "a1r5g5b5 lo hi =
     (case (lo, hi) of
        (Some lo, Some hi) \<Rightarrow> Some (A1R5G5B5toA8R8G8B8 (le16 lo hi))
      | _ \<Rightarrow> None)"

function convert_BGR8_to_SColor ::
  "u8 option list \<Rightarrow> nat \<Rightarrow> nat \<Rightarrow> u32 option list \<Rightarrow> u32 option list" where
  "convert_BGR8_to_SColor src n i dst =
     (if i < n
      then convert_BGR8_to_SColor src n (Suc i)
             (dst[i := bgr8 (src ! (3 * i)) (src ! (3 * i + 1)) (src ! (3 * i + 2))])
      else dst)"
  by pat_completeness auto
termination
  by (relation "measure (\<lambda>(src, n, i, dst). n - i)") auto

declare convert_BGR8_to_SColor.simps [simp del]

function convert_BGRA8_to_SColor ::
  "u8 option list \<Rightarrow> nat \<Rightarrow> nat \<Rightarrow> u32 option list \<Rightarrow> u32 option list" where
  "convert_BGRA8_to_SColor src n i dst =
     (if i < n
      then convert_BGRA8_to_SColor src n (Suc i)
             (dst[i := bgra8 (src ! (4 * i)) (src ! (4 * i + 1)) (src ! (4 * i + 2))
                         (src ! (4 * i + 3))])
      else dst)"
  by pat_completeness auto
termination
  by (relation "measure (\<lambda>(src, n, i, dst). n - i)") auto

declare convert_BGRA8_to_SColor.simps [simp del]

text \<open>
  Modelled from the spec: \<^verbatim>\<open>CColorConverter::convert_A1R5G5B5toA8R8G8B8\<close>
  (\<^verbatim>\<open>CColorConverter.cpp\<close>, not among the source files) expands the \<open>n\<close> 16-bit entries
  of the source, read as little-endian words, one by one.
\<close>

function convert_A1R5G5B5toA8R8G8B8 ::
  "u8 option list \<Rightarrow> nat \<Rightarrow> nat \<Rightarrow> u32 option list \<Rightarrow> u32 option list" where
  "convert_A1R5G5B5toA8R8G8B8 src n i dst =
     (if i < n
      then convert_A1R5G5B5toA8R8G8B8 src n (Suc i)
             (dst[i := a1r5g5b5 (src ! (2 * i)) (src ! (2 * i + 1))])
      else dst)"
  by pat_completeness auto
termination
  by (relation "measure (\<lambda>(src, n, i, dst). n - i)") auto

declare convert_A1R5G5B5toA8R8G8B8.simps [simp del]

text \<open>
  The block \<^verbatim>\<open>if (header.ColorMapType) { \<dots> }\<close> of \<^verbatim>\<open>loadImage\<close>: the palette (absent
  without a colour map), the stream after the colour map, and the heap events.
  \<^verbatim>\<open>MAX((u16)256u, header.ColorMapLength)\<close> is the larger of the two; the colour map has
  \<^verbatim>\<open>header.ColorMapEntrySize / 8 * header.ColorMapLength\<close> bytes.
\<close>

definition load_palette ::
  "STGAHeader \<Rightarrow> IReadFile \<Rightarrow> u32 option list option \<times> IReadFile \<times> heap_event list" where
  "load_palette header f =
     (if ColorMapType header \<noteq> 0 then
        (let paletteSize = (if 256 > ColorMapLength header then 256 else ColorMapLength header);
             palette = replicate (unat paletteSize) None;
             palette = (if paletteSize > ColorMapLength header
                        then fill_errorCol (ColorMapLength header) paletteSize palette
                        else palette);
             n = unat (ColorMapEntrySize header) div 8 * unat (ColorMapLength header);
             (colorMap, f1) = read_buffer n f;
             palette =
               (if ColorMapEntrySize header = 16 then
                  convert_A1R5G5B5toA8R8G8B8 colorMap (unat (ColorMapLength header)) 0 palette
                else if ColorMapEntrySize header = 24 then
                  convert_BGR8_to_SColor colorMap (unat (ColorMapLength header)) 0 palette
                else if ColorMapEntrySize header = 32 then
                  convert_BGRA8_to_SColor colorMap (unat (ColorMapLength header)) 0 palette
                else palette)
         in (Some palette, f1,
             [New Palette (unat paletteSize), New ColorMap n, Delete ColorMap]))
      else (None, f, []))"

subsection \<open>The pixel data\<close>

text \<open>
  Types 1, 2 and 3 read \<^verbatim>\<open>imageSize\<close> bytes in one piece, where
  \<^verbatim>\<open>const s32 imageSize = header.ImageHeight * header.ImageWidth * (header.PixelDepth / 8)\<close>
  is the same 32-bit product as in the decompressor, read as a signed number (the model
  wraps where the \<^verbatim>\<open>int\<close> product overflows); \<^verbatim>\<open>new u8[imageSize]\<close> throws for a negative
  size. Type 10 calls the decompressor. Every other type yields no buffer.
\<close>

definition load_pixels ::
  "STGAHeader \<Rightarrow> IReadFile \<Rightarrow> fault + (u8 option list \<times> log_entry list) option" where
  "load_pixels header f =
     (if ImageType header = 1 \<or> ImageType header = 2 \<or> ImageType header = 3 then
        (if sint (imageSize header) < 0 then Inl BadArrayNewLength
         else Inr (Some (fst (read_buffer (nat (sint (imageSize header))) f), [])))
      else if ImageType header = 10 then
        (case loadCompressedImage f header of
           Inl e \<Rightarrow> Inl e
         | Inr st \<Rightarrow> Inr (Some (data st, messages st)))
      else Inr None)"

subsection \<open>The output format\<close>

text \<open>
  The \<^verbatim>\<open>switch (header.PixelDepth)\<close> of \<^verbatim>\<open>loadImage\<close>. Every converter gets the flag
  \<^verbatim>\<open>(header.ImageDescriptor & 0x20) == 0\<close>; the 24-bit one gets \<^verbatim>\<open>true\<close> for its last
  parameter in addition. The result is the image, if any, and the diagnostics.
\<close>

definition flip :: "STGAHeader \<Rightarrow> bool" where
  "flip header = (ImageDescriptor header AND 0x20 = 0)"

definition image_size :: "STGAHeader \<Rightarrow> u32 \<times> u32" where
  "image_size header = (ucast (ImageWidth header), ucast (ImageHeight header))"

definition convert_pixels ::
  "STGAHeader \<Rightarrow> u8 option list \<Rightarrow> u32 option list option \<Rightarrow> string
     \<Rightarrow> IImage option \<times> log_entry list" where
  "convert_pixels header d palette name =
     (if PixelDepth header = 8 then
        (if ImageType header = 3 then
           (Some \<lparr>format = ECF_R8G8B8, dimension = image_size header,
                   filled_by = convert8BitTo24Bit d (flip header)\<rparr>, [])
         else
           (Some \<lparr>format = ECF_A8R8G8B8, dimension = image_size header,
                   filled_by = convert8BitTo32Bit d palette (flip header)\<rparr>, []))
      else if PixelDepth header = 16 then
        (Some \<lparr>format = ECF_A1R5G5B5, dimension = image_size header,
                filled_by = convert16BitTo16Bit d (flip header)\<rparr>, [])
      else if PixelDepth header = 24 then
        (Some \<lparr>format = ECF_R8G8B8, dimension = image_size header,
                filled_by = convert24BitTo24Bit d (flip header) True\<rparr>, [])
      else if PixelDepth header = 32 then
        (Some \<lparr>format = ECF_A8R8G8B8, dimension = image_size header,
                filled_by = convert32BitTo32Bit d (flip header)\<rparr>, [])
      else (None, [(''Unsupported TGA format'', name, ELL_ERROR)]))"

subsection \<open>\<^verbatim>\<open>loadImage\<close>\<close>

definition delete_palette :: "u32 option list option \<Rightarrow> heap_event list" where
  "delete_palette palette = (case palette of None \<Rightarrow> [] | Some _ \<Rightarrow> [Delete Palette])"

definition loadImage :: "nat \<Rightarrow> IReadFile \<Rightarrow> fault + load_result" where
  "loadImage maxdim f =
     (case read_header f of
        Inl e \<Rightarrow> Inl e
      | Inr (header, f1) \<Rightarrow>
          if \<not> checkImageDimensions maxdim (ucast (ImageWidth header))
                 (ucast (ImageHeight header)) then
            Inr \<lparr>result = None,
                 logged = [(''Image dimensions too large in file'', fileName f1, ELL_ERROR)],
                 heap = []\<rparr>
          else
            (let f2 = (if IdLength header \<noteq> 0
                       then snd (file_seek (uint (IdLength header)) True f1) else f1);
                 (palette, f3, h) = load_palette header f2
             in case load_pixels header f3 of
                  Inl e \<Rightarrow> Inl e
                | Inr None \<Rightarrow>
                    Inr \<lparr>result = None,
                         logged = [(''Unsupported TGA file type'', fileName f3, ELL_ERROR)],
                         heap = h @ delete_palette palette\<rparr>
                | Inr (Some (d, msgs)) \<Rightarrow>
                    (let (img, l) = convert_pixels header d palette (fileName f3)
                     in Inr \<lparr>result = img, logged = msgs @ l,
                             heap = h @ [New PixelData (length d), Delete PixelData]
                                    @ delete_palette palette\<rparr>)))"

section \<open>Recognising the format by the footer\<close>

text \<open>
  \<^verbatim>\<open>strcmp\<close> on two character arrays: the comparison walks both until the first
  difference or the terminating zero. Leaving one of the arrays before that is a read out
  of bounds. The loader only asks whether the result is 0.
\<close>

fun strcmp :: "u8 list \<Rightarrow> u8 list \<Rightarrow> fault + int" where
  "strcmp (x # xs) (y # ys) =
     (if x \<noteq> y then Inr (if x < y then - 1 else 1)
      else if x = 0 then Inr 0
      else (case strcmp xs ys of
              Inl (OutOfBoundsRead k) \<Rightarrow> Inl (OutOfBoundsRead (Suc k))
            | r \<Rightarrow> r))"
| "strcmp _ _ = Inl (OutOfBoundsRead 0)"

text \<open>
  The string literal \<^verbatim>\<open>"TRUEVISION-XFILE."\<close> as the array of its 17 characters and the
  terminating zero.
\<close>

definition signature_bytes :: "u8 list" where
  "signature_bytes = map of_char ''TRUEVISION-XFILE.'' @ [0]"

text \<open>
  Modelled from the spec: the footer record \<^verbatim>\<open>STGAFooter\<close> is declared in
  \<^verbatim>\<open>CImageLoaderTGA.h\<close>, which is not among the source files: 26 bytes, two 32-bit offsets
  and the 18-byte signature field.

  \<^verbatim>\<open>isALoadableFileFormat\<close>: a null stream is refused. Otherwise the footer is zeroed, the
  stream is positioned at \<^verbatim>\<open>getSize() - sizeof(STGAFooter)\<close> (a negative number for a
  stream of fewer than 26 bytes), 26 bytes are read into the footer, and the signature
  field is compared.
\<close>

definition isALoadableFileFormat :: "IReadFile option \<Rightarrow> fault + bool" where
  "isALoadableFileFormat file =
     (case file of
        None \<Rightarrow> Inr False
      | Some f \<Rightarrow>
          (let (moved, f1) = file_seek (int (getSize f) - 26) False f;
               (bs, f2) = file_read 26 f1;
               footer = bs @ replicate (26 - length bs) 0;
               Signature = drop 8 footer
           in case strcmp Signature signature_bytes of
                Inl e \<Rightarrow> Inl e
              | Inr c \<Rightarrow> Inr (c = 0)))"

section \<open>Notions used in the statements\<close>

text \<open>
  The checks of the decompressor add in 32 bits. They mean what they say as long as the
  image size leaves room for one more packet of the largest kind (128 pixels) below
  \<open>2 ^ 32\<close>; then the image size is the product of the three header fields as well. Every
  header with width and height up to 23000 and a pixel depth up to 64 bits is of this kind.
\<close>

definition packet_headroom :: "STGAHeader \<Rightarrow> bool" where
  "packet_headroom header =
     (unat (ImageHeight header) * unat (ImageWidth header) * (unat (PixelDepth header) div 8)
        + 128 * (unat (PixelDepth header) div 8) \<le> 2 ^ 32)"

text \<open>The bytes of a stream that are still to be read.\<close>

definition unread :: "IReadFile \<Rightarrow> u8 list" where
  "unread f = drop (pos f) (contents f)"

text \<open>
  Concrete inputs: a stream positioned at its start, and the header of a run-length
  encoded image with a given width, height and pixel depth and nothing else set.
\<close>

definition tga :: "u8 list \<Rightarrow> IReadFile" where
  "tga bs = \<lparr>contents = bs, pos = 0, fileName = ''a.tga''\<rparr>"

definition rle_header :: "u16 \<Rightarrow> u16 \<Rightarrow> u8 \<Rightarrow> STGAHeader" where
  "rle_header w h depth =
     \<lparr>IdLength = 0, ColorMapType = 0, ImageType = 10, FirstEntryIndex = 0,
      ColorMapLength = 0, ColorMapEntrySize = 0, XOrigin = 0, YOrigin = 0,
      ImageWidth = w, ImageHeight = h, PixelDepth = depth, ImageDescriptor = 0\<rparr>"

text \<open>
  A run packet of 128 pixels of 11 bytes each: the header byte 255 and one sample.
\<close>

definition full_packet :: "u8 list" where
  "full_packet = 255 # replicate 11 0"

text \<open>
  The number of bytes of pixel data that a header announces, as a natural number: the
  product that the loader computes in 32 bits.
\<close>

definition raw_size :: "STGAHeader \<Rightarrow> nat" where
  "raw_size header =
     unat (ImageHeight header) * unat (ImageWidth header) * (unat (PixelDepth header) div 8)"

text \<open>
  The buffers that a trace of allocations and releases leaves allocated.
\<close>

definition allocated :: "heap_event list \<Rightarrow> buffer list" where
  "allocated es =
     foldl (\<lambda>bs e. case e of New b n \<Rightarrow> b # bs | Delete b \<Rightarrow> remove1 b bs) [] es"

text \<open>
  The 26 bytes that the signature check finds in the footer after its seek and its read:
  the bytes the stream delivered, and the zeros of the \<^verbatim>\<open>memset\<close> behind them.
\<close>

definition footer_read :: "IReadFile \<Rightarrow> u8 list" where
  "footer_read f =
     (let bs = fst (file_read 26 (snd (file_seek (int (getSize f) - 26) False f)))
      in bs @ replicate (26 - length bs) 0)"

text \<open>
  The header of a colour-mapped image of one pixel, with a given colour map length and
  entry size.
\<close>

definition palette_header :: "u16 \<Rightarrow> u8 \<Rightarrow> STGAHeader" where
  "palette_header len es =
     \<lparr>IdLength = 0, ColorMapType = 1, ImageType = 1, FirstEntryIndex = 0,
      ColorMapLength = len, ColorMapEntrySize = es, XOrigin = 0, YOrigin = 0,
      ImageWidth = 1, ImageHeight = 1, PixelDepth = 8, ImageDescriptor = 0\<rparr>"

text \<open>
  The stream behind the image identification field, where the colour map starts:
  \<^verbatim>\<open>if (header.IdLength) file->seek(header.IdLength, true);\<close>
\<close>

definition id_skipped :: "STGAHeader \<Rightarrow> IReadFile \<Rightarrow> IReadFile" where
  "id_skipped header f1 =
     (if IdLength header \<noteq> 0 then snd (file_seek (uint (IdLength header)) True f1) else f1)"

section \<open>Facts about the run-length decompressor\<close>

subsection \<open>The buffer keeps its size\<close>

lemma read_into_length:
  "read_into off bs d = Inr d' \<Longrightarrow> length d' = length d"
  by (auto simp: read_into_def split: if_splits)

lemma copy_elements_length:
  "copy_elements header cur off e d = Inr d' \<Longrightarrow> length d' = length d"
proof (induction header cur off e d rule: copy_elements.induct)
  case (1 header current dataOffset elementCounter d)
  show ?case
  proof (cases "elementCounter < bytesPerPixel header")
    case True
    with "1.prems" "1.IH" show ?thesis
      by (subst (asm) copy_elements.simps) (auto simp: Let_def split: if_splits)
  next
    case False
    with "1.prems" show ?thesis
      by (subst (asm) copy_elements.simps) simp
  qed
qed

lemma run_copy_length:
  "run_copy header ch off k cur d = Inr (c', d') \<Longrightarrow> length d' = length d"
proof (induction header ch off k cur d rule: run_copy.induct)
  case (1 header chunkheader dataOffset counter current d)
  show ?case
  proof (cases "counter < ucast chunkheader")
    case False
    with "1.prems" show ?thesis
      by (subst (asm) run_copy.simps) simp
  next
    case True
    note lt = this
    show ?thesis
    proof (cases "current + bytesPerPixel header \<le> imageSize header")
      case False
      with lt "1.prems" "1.IH"(2) show ?thesis
        by (subst (asm) run_copy.simps) simp
    next
      case True
      with lt "1.prems" obtain d1 where
        d1: "copy_elements header current dataOffset 0 d = Inr d1" and
        r: "run_copy header chunkheader dataOffset (counter + 1)
              (current + bytesPerPixel header) d1 = Inr (c', d')"
        by (subst (asm) run_copy.simps) (auto split: sum.splits)
      from "1.IH"(1) [OF lt True d1 r] copy_elements_length [OF d1]
      show ?thesis by simp
    qed
  qed
qed

lemma raw_chunk_length:
  "raw_chunk header ch f1 st = Inr r \<Longrightarrow>
   length (data (case r of Continue s \<Rightarrow> s | Break s \<Rightarrow> s)) = length (data st)"
  by (auto simp: raw_chunk_def Let_def read_into_length split: if_splits prod.splits sum.splits)

lemma rle_chunk_length:
  "rle_chunk header ch f1 st = Inr r \<Longrightarrow>
   length (data (case r of Continue s \<Rightarrow> s | Break s \<Rightarrow> s)) = length (data st)"
  by (auto simp: rle_chunk_def Let_def split: if_splits prod.splits sum.splits
           dest!: read_into_length run_copy_length)

lemma rle_packet_length:
  "rle_packet header st = Inr r \<Longrightarrow>
   length (data (case r of Continue s \<Rightarrow> s | Break s \<Rightarrow> s)) = length (data st)"
  by (auto simp: rle_packet_def split: prod.splits if_splits
           dest: raw_chunk_length rle_chunk_length)

lemma rle_loop_length:
  "rle_loop header st = Inr st' \<Longrightarrow> length (data st') = length (data st)"
proof (induction header st rule: rle_loop.induct)
  case (1 header st)
  show ?case
  proof (cases "currentByte st < imageSize header")
    case False
    with "1.prems" show ?thesis by (subst (asm) rle_loop.simps) simp
  next
    case True
    show ?thesis
    proof (cases "rle_packet header st")
      case (Inl e)
      with True "1.prems" show ?thesis by (subst (asm) rle_loop.simps) simp
    next
      case (Inr r)
      show ?thesis
      proof (cases r)
        case (Continue s)
        with True Inr "1.prems" have "rle_loop header s = Inr st'"
          by (subst (asm) rle_loop.simps) simp
        from "1.IH" [OF True Inr Continue this] rle_packet_length [OF Inr] Continue
        show ?thesis by simp
      next
        case (Break s)
        with True Inr "1.prems" have "st' = s"
          by (subst (asm) rle_loop.simps) simp
        with rle_packet_length [OF Inr] Break show ?thesis by simp
      qed
    qed
  qed
qed

lemma loadCompressedImage_length:
  "loadCompressedImage f header = Inr st' \<Longrightarrow> length (data st') = unat (imageSize header)"
  by (auto simp: loadCompressedImage_def dest: rle_loop_length)

subsection \<open>Sizes as natural numbers\<close>

lemma unat_ucast_u8: "unat (ucast (x :: u8) :: u32) = unat x"
proof -
  have "unat x < 2 ^ 8" using unsigned_less [of x] by simp
  then have "unat x < 2 ^ 32" by simp
  then show ?thesis by (simp add: unsigned_ucast_eq take_bit_nat_eq_self_iff)
qed

lemma unat_ucast_u16: "unat (ucast (x :: u16) :: u32) = unat x"
proof -
  have "unat x < 2 ^ 16" using unsigned_less [of x] by simp
  then have "unat x < 2 ^ 32" by simp
  then show ?thesis by (simp add: unsigned_ucast_eq take_bit_nat_eq_self_iff)
qed

lemma unat_bytesPerPixel: "unat (bytesPerPixel header) = unat (PixelDepth header) div 8"
  by (simp add: bytesPerPixel_def unat_ucast_u8 unat_div)

lemma bytesPerPixel_less_32: "unat (bytesPerPixel header) < 32"
proof -
  have "unat (PixelDepth header) < 2 ^ 8" using unsigned_less [of "PixelDepth header"] by simp
  then show ?thesis by (simp add: unat_bytesPerPixel)
qed

lemma unat_imageSize_mod:
  "unat (imageSize header) =
     (unat (ImageHeight header) * unat (ImageWidth header) * (unat (PixelDepth header) div 8))
       mod 2 ^ 32"
proof -
  have "unat (imageSize header) =
      (((unat (ucast (ImageHeight header) :: u32) * unat (ucast (ImageWidth header) :: u32)) mod 2 ^ 32)
        * unat (bytesPerPixel header)) mod 2 ^ 32"
    by (simp add: imageSize_def unat_word_ariths)
  also have "\<dots> = (unat (ucast (ImageHeight header) :: u32) * unat (ucast (ImageWidth header) :: u32)
        * unat (bytesPerPixel header)) mod 2 ^ 32"
    by (simp add: mod_mult_left_eq)
  finally show ?thesis by (simp add: unat_bytesPerPixel unat_ucast_u16)
qed

lemma headroom_imageSize:
  assumes "packet_headroom header"
  shows "unat (imageSize header) =
     unat (ImageHeight header) * unat (ImageWidth header) * (unat (PixelDepth header) div 8)"
proof (cases "unat (PixelDepth header) div 8 = 0")
  case True
  then show ?thesis by (simp add: unat_imageSize_mod)
next
  case False
  then have "unat (ImageHeight header) * unat (ImageWidth header) * (unat (PixelDepth header) div 8)
      < 2 ^ 32"
    using assms by (simp add: packet_headroom_def)
  then show ?thesis by (simp add: unat_imageSize_mod)
qed

lemma headroom_room:
  assumes "packet_headroom header"
  shows "unat (imageSize header) + 128 * unat (bytesPerPixel header) \<le> 2 ^ 32"
  using assms by (simp add: headroom_imageSize unat_bytesPerPixel packet_headroom_def)

subsection \<open>The repetition loop inside the buffer\<close>

lemma unat_add_nowrap:
  fixes a b :: u32
  assumes "unat a + unat b < 2 ^ 32"
  shows "unat (a + b) = unat a + unat b"
  using assms unat_add_lem [of a b] by simp

lemma copy_elements_ok:
  assumes "unat off + unat (bytesPerPixel header) \<le> length d"
    and "unat cur + unat (bytesPerPixel header) \<le> length d"
    and "length d < 2 ^ 32"
  shows "\<exists>d'. copy_elements header cur off e d = Inr d'"
  using assms
proof (induction header cur off e d rule: copy_elements.induct)
  case (1 header current dataOffset elementCounter d)
  show ?case
  proof (cases "elementCounter < bytesPerPixel header")
    case False
    then show ?thesis by (subst copy_elements.simps) simp
  next
    case True
    then have e: "unat elementCounter < unat (bytesPerPixel header)"
      by (simp add: word_less_nat_alt)
    have src: "unat (dataOffset + elementCounter) = unat dataOffset + unat elementCounter"
      using e "1.prems" by (intro unat_add_nowrap) simp
    have dst: "unat (current + elementCounter) = unat current + unat elementCounter"
      using e "1.prems" by (intro unat_add_nowrap) simp
    have s: "\<not> length d \<le> unat (dataOffset + elementCounter)"
      using e "1.prems" by (simp add: src)
    have t: "\<not> length d \<le> unat (current + elementCounter)"
      using e "1.prems" by (simp add: dst)
    have "\<exists>d'. copy_elements header current dataOffset (elementCounter + 1)
            (d[unat (current + elementCounter) := d ! unat (dataOffset + elementCounter)]) = Inr d'"
      using "1.prems" by (intro "1.IH" [OF True refl refl s t]) simp_all
    then show ?thesis
      using True s t by (subst copy_elements.simps) (simp add: Let_def)
  qed
qed

lemma run_copy_ok:
  assumes "unat off + unat (bytesPerPixel header) \<le> length d"
    and "length d = unat (imageSize header)"
    and "unat cur + (unat (ucast ch :: u32) - unat k) * unat (bytesPerPixel header) < 2 ^ 32"
  shows "\<exists>c' d'. run_copy header ch off k cur d = Inr (c', d') \<and>
           unat c' = unat cur + (unat (ucast ch :: u32) - unat k) * unat (bytesPerPixel header)"
  using assms
proof (induction header ch off k cur d rule: run_copy.induct)
  case (1 header chunkheader dataOffset counter current d)
  let ?b = "bytesPerPixel header"
  show ?case
  proof (cases "counter < ucast chunkheader")
    case False
    then have "unat (ucast chunkheader :: u32) - unat counter = 0"
      by (simp add: word_less_nat_alt)
    with False show ?thesis by (subst run_copy.simps) simp
  next
    case True
    then have k: "unat counter < unat (ucast chunkheader :: u32)"
      by (simp add: word_less_nat_alt)
    have k1: "unat (counter + 1) = Suc (unat counter)" using True by (rule unat_succ_less)
    have split: "(unat (ucast chunkheader :: u32) - unat counter) * unat ?b
        = unat ?b + (unat (ucast chunkheader :: u32) - unat (counter + 1)) * unat ?b"
    proof -
      obtain m where m: "unat (ucast chunkheader :: u32) - unat counter = Suc m"
        using k by (cases "unat (ucast chunkheader :: u32) - unat counter") auto
      then have "unat (ucast chunkheader :: u32) - unat (counter + 1) = m"
        by (simp add: k1)
      then show ?thesis by (simp add: m)
    qed
    have nowrap: "unat current + unat ?b < 2 ^ 32"
      using "1.prems"(3) split by simp
    have adv: "unat (current + ?b) = unat current + unat ?b"
      using nowrap by (rule unat_add_nowrap)
    have rest: "unat (current + ?b) + (unat (ucast chunkheader :: u32) - unat (counter + 1)) * unat ?b
        < 2 ^ 32"
      using "1.prems"(3) split adv by simp
    show ?thesis
    proof (cases "current + ?b \<le> imageSize header")
      case False
      have "\<exists>c' d'. run_copy header chunkheader dataOffset (counter + 1) (current + ?b) d = Inr (c', d') \<and>
           unat c' = unat (current + ?b) + (unat (ucast chunkheader :: u32) - unat (counter + 1)) * unat ?b"
        using "1.prems"(1,2) rest by (intro "1.IH"(2) [OF True False])
      then show ?thesis
        using True False by (subst run_copy.simps) (auto simp: adv split add.assoc)
    next
      case fits: True
      then have "unat current + unat ?b \<le> length d"
        using "1.prems"(2) by (simp add: word_le_nat_alt adv)
      moreover have "length d < 2 ^ 32"
        using "1.prems"(2) unsigned_less [of "imageSize header"] by simp
      ultimately obtain d1 where d1: "copy_elements header current dataOffset 0 d = Inr d1"
        using copy_elements_ok [of dataOffset header d current 0] "1.prems"(1) by blast
      have len: "length d1 = length d" using d1 by (rule copy_elements_length)
      have "\<exists>c' d'. run_copy header chunkheader dataOffset (counter + 1) (current + ?b) d1 = Inr (c', d') \<and>
           unat c' = unat (current + ?b) + (unat (ucast chunkheader :: u32) - unat (counter + 1)) * unat ?b"
        using "1.prems"(1,2) rest len by (intro "1.IH"(1) [OF True fits d1]) simp_all
      then show ?thesis
        using True fits d1 by (subst run_copy.simps) (auto simp: adv split add.assoc)
    qed
  qed
qed

subsection \<open>One packet\<close>

text \<open>
  What a raw packet and a run packet do when the sums of their checks do not wrap: the
  offset is at least 128 pixels away from \<open>2 ^ 32\<close>.
\<close>

lemma unat_raw_count:
  assumes "(ch0 :: u8) < 128"
  shows "unat (ucast (ch0 + 1) :: u32) = unat ch0 + 1"
  using unat_succ_less [OF assms] by (simp add: unat_ucast_u8)

lemma unat_run_count:
  assumes "\<not> (ch0 :: u8) < 128"
  shows "unat (ucast (ch0 - 127) :: u32) = unat ch0 - 127"
proof -
  have "127 \<le> ch0" using assms by (simp add: word_le_nat_alt word_less_nat_alt)
  then have "unat (ch0 - 127) = unat ch0 - unat (127 :: u8)" by (rule unat_sub)
  then show ?thesis by (simp add: unat_ucast_u8)
qed

lemma run_count_bounds:
  assumes "\<not> (ch0 :: u8) < 128"
  shows "1 \<le> unat ch0 - 127" and "unat ch0 - 127 \<le> 128"
proof -
  have "128 \<le> unat ch0" using assms by (simp add: word_less_nat_alt)
  moreover have "unat ch0 < 2 ^ 8" using unsigned_less [of ch0] by simp
  ultimately show "1 \<le> unat ch0 - 127" and "unat ch0 - 127 \<le> 128" by simp_all
qed

lemma unat_bytes_times:
  fixes k :: u32
  assumes "unat k \<le> 128"
  shows "unat (bytesPerPixel header * k) = unat (bytesPerPixel header) * unat k"
proof -
  have "unat (bytesPerPixel header) * unat k \<le> 32 * 128"
    using bytesPerPixel_less_32 [of header] assms by (intro mult_mono) simp_all
  then have "unat (bytesPerPixel header) * unat k < 2 ^ 32" by simp
  then show ?thesis using unat_mult_lem [of "bytesPerPixel header" k] by simp
qed

lemma unat_raw_target:
  assumes nw: "unat c + 128 * unat (bytesPerPixel header) < 2 ^ 32"
    and ch: "(ch0 :: u8) < 128"
  shows "unat (c + bytesPerPixel header * ucast (ch0 + 1))
          = unat c + unat (bytesPerPixel header) * (unat ch0 + 1)"
proof -
  define n where "n = unat (bytesPerPixel header) * (unat ch0 + 1)"
  have le: "unat ch0 + 1 \<le> 128" using ch by (simp add: word_less_nat_alt)
  have m: "unat (bytesPerPixel header * ucast (ch0 + 1)) = n"
    unfolding n_def using le by (simp only: unat_bytes_times unat_raw_count [OF ch])
  have "n \<le> unat (bytesPerPixel header) * 128"
    unfolding n_def using le by (rule mult_le_mono2)
  then have "unat c + n < 2 ^ 32" using nw by linarith
  then have "unat c + unat (bytesPerPixel header * ucast (ch0 + 1)) < 2 ^ 32"
    by (simp only: m)
  then have "unat (c + bytesPerPixel header * ucast (ch0 + 1))
      = unat c + unat (bytesPerPixel header * ucast (ch0 + 1))"
    by (rule unat_add_nowrap)
  then show ?thesis by (simp only: m n_def)
qed

lemma read_into_fits:
  assumes "off + length bs \<le> length d"
  shows "read_into off bs d = Inr (take off d @ map Some bs @ drop (off + length bs) d)"
  using assms by (simp add: read_into_def)

lemma raw_chunk_fits:
  assumes nw: "unat (currentByte st) + 128 * unat (bytesPerPixel header) < 2 ^ 32"
    and len: "length (data st) = unat (imageSize header)"
    and ch: "ch0 < 128"
    and fits: "unat (currentByte st) + unat (bytesPerPixel header) * (unat ch0 + 1)
                 \<le> unat (imageSize header)"
  shows "raw_chunk header ch0 f1 st =
     Inr (Continue (st\<lparr>
       tgafile := snd (file_read (unat (bytesPerPixel header) * (unat ch0 + 1)) f1),
       data := take (unat (currentByte st)) (data st)
               @ map Some (fst (file_read (unat (bytesPerPixel header) * (unat ch0 + 1)) f1))
               @ drop (unat (currentByte st)
                      + length (fst (file_read (unat (bytesPerPixel header) * (unat ch0 + 1)) f1)))
                   (data st),
       currentByte := currentByte st + bytesPerPixel header * ucast (ch0 + 1)\<rparr>))"
proof -
  define n where "n = unat (bytesPerPixel header) * (unat ch0 + 1)"
  have le: "unat ch0 + 1 \<le> 128" using ch by (simp add: word_less_nat_alt)
  have n: "unat (bytesPerPixel header * ucast (ch0 + 1)) = n"
    unfolding n_def using le by (simp only: unat_bytes_times unat_raw_count [OF ch])
  have tgt: "unat (currentByte st + bytesPerPixel header * ucast (ch0 + 1))
      = unat (currentByte st) + n"
    unfolding n_def by (rule unat_raw_target [OF nw ch])
  have chk: "currentByte st + bytesPerPixel header * ucast (ch0 + 1) \<le> imageSize header"
    using fits unfolding word_le_nat_alt tgt n_def .
  obtain bs f2 where fr: "file_read n f1 = (bs, f2)" by (cases "file_read n f1")
  have "length bs \<le> n" using fr by (auto simp: file_read_def Let_def)
  then have "unat (currentByte st) + length bs \<le> length (data st)"
    using fits len unfolding n_def by linarith
  then have ri: "read_into (unat (currentByte st)) bs (data st)
      = Inr (take (unat (currentByte st)) (data st) @ map Some bs
             @ drop (unat (currentByte st) + length bs) (data st))"
    by (rule read_into_fits)
  show ?thesis
    unfolding n_def [symmetric]
    by (simp add: raw_chunk_def Let_def n fr ri chk)
qed

lemma raw_chunk_overrun:
  assumes nw: "unat (currentByte st) + 128 * unat (bytesPerPixel header) < 2 ^ 32"
    and ch: "ch0 < 128"
    and over: "unat (imageSize header)
                 < unat (currentByte st) + unat (bytesPerPixel header) * (unat ch0 + 1)"
  shows "raw_chunk header ch0 f1 st =
     Inr (Break (st\<lparr>tgafile := f1, messages := messages st @ [raw_warning f1]\<rparr>))"
proof -
  have "\<not> currentByte st + bytesPerPixel header * ucast (ch0 + 1) \<le> imageSize header"
    using over unfolding word_le_nat_alt unat_raw_target [OF nw ch] by simp
  then show ?thesis by (simp add: raw_chunk_def Let_def raw_warning_def)
qed

lemma unat_sample_target:
  assumes nw: "unat c + 128 * unat (bytesPerPixel header) < 2 ^ 32"
  shows "unat (c + bytesPerPixel header) = unat c + unat (bytesPerPixel header)"
proof -
  have "unat c + unat (bytesPerPixel header) < 2 ^ 32" using nw by linarith
  then show ?thesis by (rule unat_add_nowrap)
qed

lemma rle_chunk_overrun:
  assumes nw: "unat (currentByte st) + 128 * unat (bytesPerPixel header) < 2 ^ 32"
    and over: "unat (imageSize header) \<le> unat (currentByte st) + unat (bytesPerPixel header)"
  shows "rle_chunk header ch0 f1 st =
     Inr (Break (st\<lparr>tgafile := f1, messages := messages st @ [rle_warning f1]\<rparr>))"
proof -
  have "\<not> currentByte st + bytesPerPixel header < imageSize header"
    using over by (simp add: word_less_nat_alt unat_sample_target [OF nw])
  then show ?thesis by (simp add: rle_chunk_def Let_def rle_warning_def)
qed

lemma rle_chunk_fits:
  assumes nw: "unat (currentByte st) + 128 * unat (bytesPerPixel header) < 2 ^ 32"
    and len: "length (data st) = unat (imageSize header)"
    and ch: "\<not> ch0 < 128"
    and fits: "unat (currentByte st) + unat (bytesPerPixel header) < unat (imageSize header)"
  shows "\<exists>st'. rle_chunk header ch0 f1 st = Inr (Continue st') \<and>
     tgafile st' = snd (file_read (unat (bytesPerPixel header)) f1) \<and>
     messages st' = messages st \<and>
     length (data st') = length (data st) \<and>
     unat (currentByte st') =
       unat (currentByte st) + unat (bytesPerPixel header) * (unat ch0 - 127)"
proof -
  let ?b = "bytesPerPixel header"
  obtain bs f2 where fr: "file_read (unat ?b) f1 = (bs, f2)" by (cases "file_read (unat ?b) f1")
  have chk: "currentByte st + ?b < imageSize header"
    using fits by (simp add: word_less_nat_alt unat_sample_target [OF nw])
  have "length bs \<le> unat ?b" using fr by (auto simp: file_read_def Let_def)
  then have "unat (currentByte st) + length bs \<le> length (data st)"
    using fits len by simp
  then obtain d1 where d1: "read_into (unat (currentByte st)) bs (data st) = Inr d1"
    using read_into_fits by blast
  have len1: "length d1 = unat (imageSize header)"
    using read_into_length [OF d1] len by simp
  have cnt: "unat (ucast (ch0 - 127) :: u32) = unat ch0 - 127" using ch by (rule unat_run_count)
  obtain m where m: "unat ch0 - 127 = Suc m" and m127: "m \<le> 127"
    using run_count_bounds [OF ch] by (cases "unat ch0 - 127") auto
  have "m * unat ?b \<le> 127 * unat ?b" using m127 by (rule mult_le_mono1)
  then have "unat (currentByte st) + unat ?b + m * unat ?b < 2 ^ 32"
    using nw by linarith
  then have pre: "unat (currentByte st + ?b) + (unat (ucast (ch0 - 127) :: u32) - unat (1 :: u32)) * unat ?b
      < 2 ^ 32"
    by (simp add: unat_sample_target [OF nw] cnt m)
  have off: "unat (currentByte st) + unat ?b \<le> length d1" using fits len1 by simp
  obtain c' d' where r: "run_copy header (ch0 - 127) (currentByte st) 1 (currentByte st + ?b) d1
        = Inr (c', d')"
    and c': "unat c' = unat (currentByte st + ?b)
        + (unat (ucast (ch0 - 127) :: u32) - unat (1 :: u32)) * unat ?b"
    using run_copy_ok [OF off len1 pre] by blast
  have "unat c' = unat (currentByte st) + unat ?b * (unat ch0 - 127)"
    using c' by (simp add: unat_sample_target [OF nw] cnt m)
  moreover have "length d' = length (data st)"
    using run_copy_length [OF r] len1 len by simp
  ultimately show ?thesis
    using chk by (simp add: rle_chunk_def Let_def fr d1 r)
qed

subsection \<open>The packet loop under headroom\<close>

lemma rle_packet_cases:
  assumes room: "unat (imageSize header) + 128 * unat (bytesPerPixel header) \<le> 2 ^ 32"
    and len: "length (data st) = unat (imageSize header)"
    and c: "currentByte st < imageSize header"
  shows "(\<exists>st'. rle_packet header st = Inr (Continue st') \<and>
             length (data st') = length (data st) \<and>
             unat (currentByte st) + unat (bytesPerPixel header) \<le> unat (currentByte st')) \<or>
         (\<exists>w. rle_packet header st =
             Inr (Break (st\<lparr>tgafile := snd (read_chunkheader (tgafile st)),
                             messages := messages st @ [w]\<rparr>)))"
proof -
  let ?b = "bytesPerPixel header"
  have "unat (currentByte st) < unat (imageSize header)" using c by (simp add: word_less_nat_alt)
  then have nw: "unat (currentByte st) + 128 * unat ?b < 2 ^ 32" using room by simp
  obtain ch0 f1 where rh: "read_chunkheader (tgafile st) = (ch0, f1)"
    by (cases "read_chunkheader (tgafile st)")
  show ?thesis
  proof (cases "ch0 < 128")
    case True
    then have p: "rle_packet header st = raw_chunk header ch0 f1 st"
      by (simp add: rle_packet_def rh)
    show ?thesis
    proof (cases "unat (currentByte st) + unat ?b * (unat ch0 + 1) \<le> unat (imageSize header)")
      case fits: True
      have "unat ?b * 1 \<le> unat ?b * (unat ch0 + 1)" by (rule mult_le_mono2) simp
      then have "unat (currentByte st) + unat ?b
          \<le> unat (currentByte st + ?b * ucast (ch0 + 1))"
        by (simp only: unat_raw_target [OF nw True])
      moreover obtain st' where p': "rle_packet header st = Inr (Continue st')"
        and cb: "currentByte st' = currentByte st + ?b * ucast (ch0 + 1)"
        by (simp add: p raw_chunk_fits [OF nw len True fits])
      moreover have "length (data st') = length (data st)"
        using rle_packet_length [OF p'] by simp
      ultimately show ?thesis by auto
    next
      case False
      then have "unat (imageSize header) < unat (currentByte st) + unat ?b * (unat ch0 + 1)"
        by simp
      from raw_chunk_overrun [OF nw True this, of f1] show ?thesis
        by (intro disjI2 exI [of _ "raw_warning f1"]) (simp add: p rh)
    qed
  next
    case False
    then have p: "rle_packet header st = rle_chunk header ch0 f1 st"
      by (simp add: rle_packet_def rh)
    show ?thesis
    proof (cases "unat (currentByte st) + unat ?b < unat (imageSize header)")
      case fits: True
      have "unat ?b * 1 \<le> unat ?b * (unat ch0 - 127)"
        using run_count_bounds(1) [OF False] by (rule mult_le_mono2)
      with rle_chunk_fits [OF nw len False fits, of f1] show ?thesis
        by (auto simp: p)
    next
      case over: False
      then have "unat (imageSize header) \<le> unat (currentByte st) + unat ?b" by simp
      from rle_chunk_overrun [OF nw this, of ch0 f1] show ?thesis
        by (intro disjI2 exI [of _ "rle_warning f1"]) (simp add: p rh)
    qed
  qed
qed

lemma rle_loop_no_fault:
  assumes "unat (imageSize header) + 128 * unat (bytesPerPixel header) \<le> 2 ^ 32"
    and "length (data st) = unat (imageSize header)"
  shows "\<exists>st'. rle_loop header st = Inr st'"
  using assms
proof (induction header st rule: rle_loop.induct)
  case (1 header st)
  show ?case
  proof (cases "currentByte st < imageSize header")
    case False
    then show ?thesis by (subst rle_loop.simps) simp
  next
    case True
    from rle_packet_cases [OF "1.prems"(1) "1.prems"(2) True]
    show ?thesis
    proof (elim disjE exE conjE)
      fix st'
      assume p: "rle_packet header st = Inr (Continue st')"
        and l: "length (data st') = length (data st)"
      have "\<exists>r. rle_loop header st' = Inr r"
        using "1.prems" l by (intro "1.IH" [OF True p refl]) simp_all
      then show ?thesis using True p by (subst rle_loop.simps) simp
    next
      fix w
      assume "rle_packet header st =
        Inr (Break (st\<lparr>tgafile := snd (read_chunkheader (tgafile st)),
                        messages := messages st @ [w]\<rparr>))"
      then show ?thesis using True by (subst rle_loop.simps) simp
    qed
  qed
qed

lemma loadCompressedImage_no_fault:
  assumes "packet_headroom header"
  shows "\<exists>st'. loadCompressedImage f header = Inr st' \<and>
     length (data st') =
       unat (ImageHeight header) * unat (ImageWidth header) * (unat (PixelDepth header) div 8)"
proof -
  have "\<exists>st'. loadCompressedImage f header = Inr st'"
    unfolding loadCompressedImage_def
    by (rule rle_loop_no_fault [OF headroom_room [OF assms]]) simp
  then show ?thesis
    using loadCompressedImage_length [of f header] headroom_imageSize [OF assms] by auto
qed

subsection \<open>Streams of run packets\<close>

text \<open>
  The decoder on a stream that starts with \<open>n\<close> full run packets, and on a run packet
  whose repetitions reach the end of the buffer exactly and go on beyond it, for a header
  whose image size is less than one pixel away from \<open>2 ^ 32\<close>.
\<close>

lemma file_read_unread:
  "fst (file_read n f) = take n (unread f) \<and> unread (snd (file_read n f)) = drop n (unread f)"
proof -
  have "drop (pos f + min n (length (contents f) - pos f)) (contents f)
      = drop n (drop (pos f) (contents f))"
    by (cases "n \<le> length (contents f) - pos f") (simp_all add: min_def add.commute)
  then show ?thesis by (simp add: file_read_def unread_def Let_def min.commute)
qed

lemma read_chunkheader_unread:
  assumes "unread f = b # r"
  shows "fst (read_chunkheader f) = b" and "unread (snd (read_chunkheader f)) = r"
  using file_read_unread [of 1 f] assms
  by (auto simp: read_chunkheader_def split: prod.splits list.splits)

lemma huge_bytesPerPixel: "bytesPerPixel (rle_header 20853 18724 88) = 11"
  by (simp add: bytesPerPixel_def rle_header_def)

lemma huge_imageSize: "imageSize (rle_header 20853 18724 88) = 4294967292"
  by (simp add: imageSize_def huge_bytesPerPixel) (simp add: rle_header_def)


lemma run_copy_prefix:
  assumes "unat off + unat (bytesPerPixel header) \<le> length d"
    and "length d = unat (imageSize header)"
    and "unat k + j \<le> unat (ucast ch :: u32)"
    and "unat cur + j * unat (bytesPerPixel header) \<le> unat (imageSize header)"
  shows "\<exists>d'. length d' = length d \<and>
     run_copy header ch off k cur d =
     run_copy header ch off (k + of_nat j) (cur + of_nat j * bytesPerPixel header) d'"
  using assms
proof (induction j arbitrary: k cur d)
  case 0
  then show ?case by (intro exI [of _ d]) simp
next
  case (Suc j)
  let ?b = "bytesPerPixel header"
  have S32: "unat (imageSize header) < 2 ^ 32"
    using unsigned_less [of "imageSize header"] by simp
  have k: "k < ucast ch" using Suc.prems(3) by (simp add: word_less_nat_alt)
  have k1: "unat (k + 1) = Suc (unat k)" using k by (rule unat_succ_less)
  have fit: "unat cur + unat ?b \<le> unat (imageSize header)"
    using Suc.prems(4) by simp
  then have adv: "unat (cur + ?b) = unat cur + unat ?b"
    using S32 by (intro unat_add_nowrap) simp
  have chk: "cur + ?b \<le> imageSize header"
    using fit by (simp add: word_le_nat_alt adv)
  have "length d < 2 ^ 32" using Suc.prems(2) S32 by simp
  then obtain d1 where d1: "copy_elements header cur off 0 d = Inr d1"
    using copy_elements_ok [of off header d cur 0] Suc.prems(1,2) fit by auto
  have len1: "length d1 = length d" using d1 by (rule copy_elements_length)
  have step: "run_copy header ch off k cur d = run_copy header ch off (k + 1) (cur + ?b) d1"
    using k chk d1 by (subst run_copy.simps) simp
  have "\<exists>d'. length d' = length d1 \<and>
     run_copy header ch off (k + 1) (cur + ?b) d1 =
     run_copy header ch off (k + 1 + of_nat j) (cur + ?b + of_nat j * ?b) d'"
    using Suc.prems len1 k1 adv by (intro Suc.IH) simp_all
  then obtain d' where d': "length d' = length d1"
    and r: "run_copy header ch off (k + 1) (cur + ?b) d1 =
       run_copy header ch off (k + 1 + of_nat j) (cur + ?b + of_nat j * ?b) d'"
    by blast
  have e1: "k + 1 + of_nat j = k + of_nat (Suc j)" by simp
  have e2: "cur + ?b + of_nat j * ?b = cur + of_nat (Suc j) * ?b"
    by (simp add: algebra_simps)
  have "run_copy header ch off k cur d =
     run_copy header ch off (k + of_nat (Suc j)) (cur + of_nat (Suc j) * ?b) d'"
    using step r by (simp only: e1 e2)
  then show ?case
    using d' len1 by (intro exI [of _ d']) simp
qed

lemma run_copy_fault:
  assumes k: "k < ucast ch"
    and wrap: "2 ^ 32 \<le> unat (imageSize header) + unat (bytesPerPixel header)"
    and off: "unat off < length d"
    and len: "length d = unat (imageSize header)"
  shows "run_copy header ch off k (imageSize header) d
         = Inl (OutOfBoundsWrite (unat (imageSize header)))"
proof -
  let ?b = "bytesPerPixel header"
  let ?S = "imageSize header"
  have S32: "unat ?S < 2 ^ 32" using unsigned_less [of ?S] by simp
  have b32: "unat ?b < 2 ^ 32" using unsigned_less [of ?b] by simp
  have "unat (?S + ?b) = (unat ?S + unat ?b) mod 2 ^ 32" by (simp add: unat_word_ariths)
  also have "\<dots> = unat ?S + unat ?b - 2 ^ 32"
    using wrap S32 b32 by (simp add: mod_if)
  finally have "unat (?S + ?b) \<le> unat ?S" using b32 by simp
  then have chk: "?S + ?b \<le> ?S" by (simp add: word_le_nat_alt)
  have b0: "0 < ?b"
  proof -
    have "unat ?b \<noteq> 0" using wrap S32 by auto
    then show ?thesis by (simp add: word_greater_zero_iff unat_eq_0)
  qed
  have "copy_elements header ?S off 0 d = Inl (OutOfBoundsWrite (unat ?S))"
    using b0 off len by (subst copy_elements.simps) (simp add: Let_def)
  then show ?thesis
    using k chk by (subst run_copy.simps) simp
qed


lemma full_run_packet:
  assumes un: "unread (tgafile st) = 255 # px @ rest"
    and px: "length px = unat (bytesPerPixel header)"
    and b0: "0 < unat (bytesPerPixel header)"
    and len: "length (data st) = unat (imageSize header)"
    and fit: "unat (currentByte st) + 128 * unat (bytesPerPixel header) \<le> unat (imageSize header)"
  shows "\<exists>st'. rle_packet header st = Inr (Continue st') \<and>
     unread (tgafile st') = rest \<and>
     length (data st') = unat (imageSize header) \<and>
     unat (currentByte st') = unat (currentByte st) + 128 * unat (bytesPerPixel header)"
proof -
  let ?b = "bytesPerPixel header"
  define f1 where "f1 = snd (read_chunkheader (tgafile st))"
  have rh: "read_chunkheader (tgafile st) = (255, f1)"
    using read_chunkheader_unread(1) [OF un] by (simp add: f1_def prod_eq_iff)
  have u1: "unread f1 = px @ rest"
    using read_chunkheader_unread(2) [OF un] by (simp add: f1_def)
  have ch: "\<not> (255 :: u8) < 128" by simp
  have S32: "unat (imageSize header) < 2 ^ 32"
    using unsigned_less [of "imageSize header"] by simp
  have nw: "unat (currentByte st) + 128 * unat ?b < 2 ^ 32" using fit S32 by simp
  have fits: "unat (currentByte st) + unat ?b < unat (imageSize header)"
    using fit b0 by simp
  have p: "rle_packet header st = rle_chunk header 255 f1 st"
    by (simp add: rle_packet_def rh)
  have "unread (snd (file_read (unat ?b) f1)) = rest"
    using file_read_unread [of "unat ?b" f1] by (simp add: u1 px)
  with rle_chunk_fits [OF nw len ch fits, of f1] show ?thesis
    by (auto simp: p len)
qed

lemma rle_loop_full_runs:
  assumes "unread (tgafile st) = concat (replicate n (255 # px)) @ rest"
    and "length px = unat (bytesPerPixel header)"
    and "0 < unat (bytesPerPixel header)"
    and "length (data st) = unat (imageSize header)"
    and "unat (currentByte st) + n * (128 * unat (bytesPerPixel header)) \<le> unat (imageSize header)"
  shows "\<exists>st'. rle_loop header st = rle_loop header st' \<and>
     unread (tgafile st') = rest \<and>
     length (data st') = unat (imageSize header) \<and>
     unat (currentByte st') = unat (currentByte st) + n * (128 * unat (bytesPerPixel header))"
  using assms
proof (induction n arbitrary: st)
  case 0
  then show ?case by (intro exI [of _ st]) simp
next
  case (Suc n)
  let ?b = "bytesPerPixel header"
  have un: "unread (tgafile st) = 255 # px @ (concat (replicate n (255 # px)) @ rest)"
    using Suc.prems(1) by simp
  have fit: "unat (currentByte st) + 128 * unat ?b \<le> unat (imageSize header)"
    using Suc.prems(5) by simp
  obtain s1 where p: "rle_packet header st = Inr (Continue s1)"
    and u1: "unread (tgafile s1) = concat (replicate n (255 # px)) @ rest"
    and l1: "length (data s1) = unat (imageSize header)"
    and c1: "unat (currentByte s1) = unat (currentByte st) + 128 * unat ?b"
    using full_run_packet [OF un Suc.prems(2) Suc.prems(3) Suc.prems(4) fit] by blast
  have lt: "currentByte st < imageSize header"
    using fit Suc.prems(3) by (simp add: word_less_nat_alt)
  have step: "rle_loop header st = rle_loop header s1"
    using lt p by (subst rle_loop.simps) simp
  have "unat (currentByte s1) + n * (128 * unat ?b) \<le> unat (imageSize header)"
    using Suc.prems(5) c1 by simp
  from Suc.IH [OF u1 Suc.prems(2) Suc.prems(3) l1 this]
  obtain st' where "rle_loop header s1 = rle_loop header st'"
    and "unread (tgafile st') = rest"
    and "length (data st') = unat (imageSize header)"
    and "unat (currentByte st') = unat (currentByte s1) + n * (128 * unat ?b)"
    by blast
  then show ?case
    using step c1 by (intro exI [of _ st']) simp
qed

lemma overlong_run_faults:
  assumes un: "unread (tgafile st) = 255 # px @ rest"
    and px: "length px = unat (bytesPerPixel header)"
    and len: "length (data st) = unat (imageSize header)"
    and reach: "unat (currentByte st) + j * unat (bytesPerPixel header) = unat (imageSize header)"
    and j: "2 \<le> j" "j \<le> 127"
    and wrap: "2 ^ 32 \<le> unat (imageSize header) + unat (bytesPerPixel header)"
  shows "rle_loop header st = Inl (OutOfBoundsWrite (unat (imageSize header)))"
proof -
  let ?b = "bytesPerPixel header"
  let ?S = "imageSize header"
  let ?c = "currentByte st"
  have S32: "unat ?S < 2 ^ 32" using unsigned_less [of ?S] by simp
  have b0: "0 < unat ?b" using wrap S32 by simp
  obtain i where i: "j = Suc (Suc i)" using j(1) by (cases j; cases "j - 1") auto
  have two: "unat ?c + 2 * unat ?b \<le> unat ?S"
    using reach by (simp add: i)
  have fits: "unat ?c + unat ?b < unat ?S" using two b0 by simp
  have lt: "?c < ?S" using fits by (simp add: word_less_nat_alt)
  have adv: "unat (?c + ?b) = unat ?c + unat ?b"
    using fits S32 by (intro unat_add_nowrap) simp
  have chk: "?c + ?b < ?S" using fits by (simp add: word_less_nat_alt adv)
  define f1 where "f1 = snd (read_chunkheader (tgafile st))"
  have rh: "read_chunkheader (tgafile st) = (255, f1)"
    using read_chunkheader_unread(1) [OF un] by (simp add: f1_def prod_eq_iff)
  have u1: "unread f1 = px @ rest"
    using read_chunkheader_unread(2) [OF un] by (simp add: f1_def)
  obtain f2 where fr: "file_read (unat ?b) f1 = (px, f2)"
    using file_read_unread [of "unat ?b" f1] by (cases "file_read (unat ?b) f1") (simp add: u1 px)
  have "unat ?c + length px \<le> length (data st)" using fits len px by simp
  then obtain d1 where d1: "read_into (unat ?c) px (data st) = Inr d1"
    using read_into_fits by blast
  have len1: "length d1 = unat ?S" using read_into_length [OF d1] len by simp
  have off: "unat ?c + unat ?b \<le> length d1" using fits len1 by simp
  have cnt: "unat (1 :: u32) + Suc i \<le> unat (ucast (128 :: u8) :: u32)"
    using j(2) by (simp add: i)
  have tot: "unat (?c + ?b) + Suc i * unat ?b \<le> unat ?S"
    using reach by (simp add: adv i)
  obtain d' where ld': "length d' = length d1"
    and r: "run_copy header 128 ?c 1 (?c + ?b) d1 =
       run_copy header 128 ?c (1 + of_nat (Suc i)) (?c + ?b + of_nat (Suc i) * ?b) d'"
    using run_copy_prefix [OF off len1 cnt tot] by blast
  have "?S = of_nat (unat ?c + j * unat ?b)" by (simp only: reach) simp
  also have "\<dots> = ?c + ?b + of_nat (Suc i) * ?b" by (simp add: i algebra_simps)
  finally have tgt: "?c + ?b + of_nat (Suc i) * ?b = ?S" by simp
  have "unat (1 + of_nat (Suc i) :: u32) = j"
  proof -
    have "(1 + of_nat (Suc i) :: u32) = of_nat j" by (simp add: i)
    moreover have "j < 2 ^ 32" using j(2) by simp
    ultimately show ?thesis by (simp only: unat_of_nat) simp
  qed
  then have k: "(1 + of_nat (Suc i) :: u32) < ucast (128 :: u8)"
    using j(2) by (simp add: word_less_nat_alt)
  have "unat ?c < length d'" using ld' len1 fits by simp
  from run_copy_fault [OF k wrap this] ld' len1
  have "run_copy header 128 ?c (1 + of_nat (Suc i)) ?S d' = Inl (OutOfBoundsWrite (unat ?S))"
    by simp
  then have "run_copy header 128 ?c 1 (?c + ?b) d1 = Inl (OutOfBoundsWrite (unat ?S))"
    by (simp only: r tgt)
  then have "rle_chunk header 255 f1 st = Inl (OutOfBoundsWrite (unat ?S))"
    using chk by (simp add: rle_chunk_def Let_def fr d1)
  then have "rle_packet header st = Inl (OutOfBoundsWrite (unat ?S))"
    by (simp add: rle_packet_def rh)
  then show ?thesis using lt by (subst rle_loop.simps) simp
qed

lemma shallow_imageSize:
  assumes "PixelDepth header < 8"
  shows "imageSize header = 0"
proof -
  have "unat (PixelDepth header) < 8" using assms by (simp add: word_less_nat_alt)
  then have "unat (bytesPerPixel header) = 0" by (simp add: unat_bytesPerPixel)
  then have "bytesPerPixel header = 0" by (simp add: unat_eq_0)
  then show ?thesis by (simp add: imageSize_def)
qed

subsection \<open>The contents of the buffer after a run packet\<close>







lemma rle_packet_aligned:
  assumes hr: "packet_headroom header"
    and len: "length (data st) = unat (imageSize header)"
    and c: "currentByte st < imageSize header"
    and al: "unat (bytesPerPixel header) dvd unat (currentByte st)"
    and p: "rle_packet header st = Inr (Continue st')"
  shows "unat (bytesPerPixel header) dvd unat (currentByte st') \<and>
         length (data st') = unat (imageSize header)"
proof -
  let ?b = "bytesPerPixel header"
  have "unat (currentByte st) < unat (imageSize header)" using c by (simp add: word_less_nat_alt)
  then have nw: "unat (currentByte st) + 128 * unat ?b < 2 ^ 32"
    using headroom_room [OF hr] by simp
  obtain ch0 f1 where rh: "read_chunkheader (tgafile st) = (ch0, f1)"
    by (cases "read_chunkheader (tgafile st)")
  have l: "length (data st') = unat (imageSize header)"
    using rle_packet_length [OF p] len by simp
  have "unat ?b dvd unat (currentByte st')"
  proof (cases "ch0 < 128")
    case True
    then have q: "raw_chunk header ch0 f1 st = Inr (Continue st')"
      using p by (simp add: rle_packet_def rh)
    show ?thesis
    proof (cases "unat (currentByte st) + unat ?b * (unat ch0 + 1) \<le> unat (imageSize header)")
      case fits: True
      from raw_chunk_fits [OF nw len True fits, of f1] q
      have "currentByte st' = currentByte st + ?b * ucast (ch0 + 1)" by auto
      then have "unat (currentByte st') = unat (currentByte st) + unat ?b * (unat ch0 + 1)"
        by (simp only: unat_raw_target [OF nw True])
      then show ?thesis using al by simp
    next
      case False
      then have "unat (imageSize header) < unat (currentByte st) + unat ?b * (unat ch0 + 1)"
        by simp
      from raw_chunk_overrun [OF nw True this, of f1] q show ?thesis by simp
    qed
  next
    case False
    then have q: "rle_chunk header ch0 f1 st = Inr (Continue st')"
      using p by (simp add: rle_packet_def rh)
    show ?thesis
    proof (cases "unat (currentByte st) + unat ?b < unat (imageSize header)")
      case fits: True
      from rle_chunk_fits [OF nw len False fits, of f1] q
      have "unat (currentByte st') = unat (currentByte st) + unat ?b * (unat ch0 - 127)" by auto
      then show ?thesis using al by simp
    next
      case over: False
      then have "unat (imageSize header) \<le> unat (currentByte st) + unat ?b" by simp
      from rle_chunk_overrun [OF nw this, of ch0 f1] q show ?thesis by simp
    qed
  qed
  with l show ?thesis by simp
qed


section \<open>The signature check\<close>

text \<open>
  \<^verbatim>\<open>strcmp\<close> against the signature stays inside an 18-byte field: the literal ends at its
  terminator at index 17 at the latest, and the comparison stops there.
\<close>

lemma strcmp_terminated:
  assumes "ys \<noteq> []" and "last ys = 0" and "0 \<notin> set (butlast ys)"
    and "length ys \<le> length xs"
  shows "\<exists>c. strcmp xs ys = Inr c \<and> (c = 0 \<longleftrightarrow> take (length ys) xs = ys)"
  using assms
proof (induction ys arbitrary: xs)
  case Nil
  then show ?case by simp
next
  case (Cons y ys)
  then obtain x xs' where xs: "xs = x # xs'" by (cases xs) auto
  show ?case
  proof (cases "ys = []")
    case True
    then have "y = 0" using Cons.prems(2) by simp
    then show ?thesis by (auto simp: xs True)
  next
    case False
    then have y0: "y \<noteq> 0" using Cons.prems(3) by auto
    have "\<exists>c. strcmp xs' ys = Inr c \<and> (c = 0 \<longleftrightarrow> take (length ys) xs' = ys)"
      using Cons.prems False by (intro Cons.IH) (auto simp: xs)
    then show ?thesis using y0 by (auto simp: xs)
  qed
qed

lemma signature_props:
  "signature_bytes \<noteq> []" "last signature_bytes = 0" "0 \<notin> set (butlast signature_bytes)"
  "length signature_bytes = 18"
  by (simp_all add: signature_bytes_def)

lemma strcmp_signature:
  assumes "length sig = 18"
  shows "\<exists>c. strcmp sig signature_bytes = Inr c \<and> (c = 0 \<longleftrightarrow> sig = signature_bytes)"
  using strcmp_terminated [OF signature_props(1,2,3), of sig] assms
  by (simp add: signature_props(4))

lemma footer_read_length: "length (footer_read f) = 26"
  by (simp add: footer_read_def Let_def file_read_def)

lemma isALoadableFileFormat_footer:
  "isALoadableFileFormat (Some f) =
     (case strcmp (drop 8 (footer_read f)) signature_bytes of
        Inl e \<Rightarrow> Inl e
      | Inr c \<Rightarrow> Inr (c = 0))"
  by (simp only: isALoadableFileFormat_def footer_read_def Let_def case_prod_beta option.case)

lemma isALoadableFileFormat_eq:
  "isALoadableFileFormat (Some f) = Inr (drop 8 (footer_read f) = signature_bytes)"
proof -
  have "length (drop 8 (footer_read f)) = 18" by (simp add: footer_read_length)
  from strcmp_signature [OF this]
  obtain c where c: "strcmp (drop 8 (footer_read f)) signature_bytes = Inr c"
    and z: "c = 0 \<longleftrightarrow> drop 8 (footer_read f) = signature_bytes" by blast
  show ?thesis
    by (simp only: isALoadableFileFormat_footer c sum.case z)
qed

lemma footer_read_long:
  assumes "26 \<le> getSize f"
  shows "drop 8 (footer_read f) = drop (getSize f - 18) (contents f)"
proof -
  have s: "file_seek (int (getSize f) - 26) False f = (True, f\<lparr>pos := getSize f - 26\<rparr>)"
    using assms by (simp add: file_seek_def getSize_def Let_def nat_diff_distrib)
  have "fst (file_read 26 (f\<lparr>pos := getSize f - 26\<rparr>)) = drop (getSize f - 26) (contents f)"
    using assms by (simp add: file_read_def getSize_def Let_def)
  moreover have "length (drop (getSize f - 26) (contents f)) = 26"
    using assms by (simp add: getSize_def)
  ultimately have "footer_read f = drop (getSize f - 26) (contents f)"
    by (simp add: footer_read_def s Let_def)
  then show ?thesis using assms by (simp add: getSize_def)
qed

section \<open>The loader\<close>

text \<open>
  Reading and seeking keep the name of the stream; a buffer filled by a read keeps its size.
\<close>

lemma file_read_fileName: "fileName (snd (file_read n f)) = fileName f"
  by (simp add: file_read_def Let_def)

lemma file_seek_fileName: "fileName (snd (file_seek p r f)) = fileName f"
  by (simp add: file_seek_def Let_def)

lemma read_buffer_fileName: "fileName (snd (read_buffer n f)) = fileName f"
  using file_read_fileName [of n f] by (simp add: read_buffer_def case_prod_beta)

lemma read_buffer_length: "length (fst (read_buffer n f)) = n"
  by (simp add: read_buffer_def file_read_def Let_def)

lemma read_header_fileName:
  assumes "read_header f = Inr (header, f1)"
  shows "fileName f1 = fileName f"
  using assms file_read_fileName [of 18 f]
  by (auto simp: read_header_def case_prod_beta split: if_splits)

lemma load_palette_fileName:
  "load_palette header f = (p, f1, h) \<Longrightarrow> fileName f1 = fileName f"
  using read_buffer_fileName [of _ f]
  by (auto simp: load_palette_def Let_def case_prod_beta split: if_splits)

lemma load_palette_heap:
  "load_palette header f = (p, f1, h) \<Longrightarrow> allocated (h @ delete_palette p) = []"
  by (auto simp: load_palette_def Let_def allocated_def delete_palette_def case_prod_beta
           split: if_splits)

text \<open>
  The pixel data is loaded without a fault when its size fits a signed 32-bit integer.
\<close>

lemma sint_small:
  fixes w :: u32
  assumes "unat w < 2 ^ 31"
  shows "sint w = int (unat w)"
proof -
  have u: "uint w = int (unat w)" by simp
  have "- (2 ^ 31) \<le> uint w" "uint w < 2 ^ 31" using assms by (simp_all add: u del: of_nat_unat)
  then have "signed_take_bit 31 (uint w) = uint w" by (rule signed_take_bit_int_eq_self)
  then show ?thesis by (simp add: sint_uint)
qed

lemma raw_size_imageSize:
  assumes "raw_size header < 2 ^ 31"
  shows "unat (imageSize header) = raw_size header"
  using assms by (simp add: unat_imageSize_mod raw_size_def)

lemma raw_size_headroom:
  assumes "raw_size header < 2 ^ 31"
  shows "packet_headroom header"
proof -
  have "unat (PixelDepth header) div 8 < 32"
    using bytesPerPixel_less_32 [of header] by (simp add: unat_bytesPerPixel)
  then show ?thesis using assms by (simp add: packet_headroom_def raw_size_def)
qed

lemma load_pixels_data:
  assumes sz: "raw_size header < 2 ^ 31"
    and ty: "ImageType header = 1 \<or> ImageType header = 2 \<or> ImageType header = 3
             \<or> ImageType header = 10"
  shows "\<exists>d msgs. load_pixels header f = Inr (Some (d, msgs)) \<and> length d = raw_size header \<and>
     (ImageType header \<noteq> 10 \<longrightarrow> d = fst (read_buffer (raw_size header) f) \<and> msgs = []) \<and>
     (ImageType header = 10 \<longrightarrow>
        (\<exists>st. loadCompressedImage f header = Inr st \<and> d = data st \<and> msgs = messages st))"
proof (cases "ImageType header = 10")
  case True
  obtain st where "loadCompressedImage f header = Inr st"
    and "length (data st) = raw_size header"
    using loadCompressedImage_no_fault [OF raw_size_headroom [OF sz], of f]
    by (auto simp: raw_size_def)
  then show ?thesis using True by (simp add: load_pixels_def)
next
  case False
  have s: "sint (imageSize header) = int (raw_size header)"
  proof -
    have "unat (imageSize header) < 2 ^ 31" using sz by (simp only: raw_size_imageSize [OF sz])
    then have "sint (imageSize header) = int (unat (imageSize header))" by (rule sint_small)
    then show ?thesis by (simp only: raw_size_imageSize [OF sz])
  qed
  show ?thesis
    using False ty by (auto simp: load_pixels_def s read_buffer_length)
qed

text \<open>
  The loops that fill the palette: the sentinel above the declared length, and the three
  conversions of the colour map entries.
\<close>

lemma errorCol_value: "errorCol = 0xFFFF00CD"
  by (simp add: errorCol_def SColor_def)

lemma fill_errorCol_length: "length (fill_errorCol i n p) = length p"
proof (induction i n p rule: fill_errorCol.induct)
  case (1 i paletteSize palette)
  then show ?case by (subst fill_errorCol.simps) simp
qed

lemma fill_errorCol_nth:
  assumes "unat n \<le> length p"
  shows "fill_errorCol i n p ! j = (if unat i \<le> j \<and> j < unat n then Some errorCol else p ! j)"
  using assms
proof (induction i n p rule: fill_errorCol.induct)
  case (1 i paletteSize palette)
  show ?case
  proof (cases "i < paletteSize")
    case False
    then have "\<not> (unat i \<le> j \<and> j < unat paletteSize)" by (auto simp: word_less_nat_alt)
    with False show ?thesis by (subst fill_errorCol.simps) auto
  next
    case True
    have s: "unat (i + 1) = Suc (unat i)" using True by (rule unat_succ_less)
    have l: "unat i < length palette"
      using True "1.prems" by (simp add: word_less_nat_alt)
    have "fill_errorCol (i + 1) paletteSize (palette[unat i := Some errorCol]) ! j =
        (if unat (i + 1) \<le> j \<and> j < unat paletteSize then Some errorCol
         else (palette[unat i := Some errorCol]) ! j)"
      using "1.prems" by (intro "1.IH" [OF True]) simp
    then show ?thesis
      using True l by (subst fill_errorCol.simps) (auto simp: s word_less_nat_alt nth_list_update)
  qed
qed

lemma convert_BGR8_length: "length (convert_BGR8_to_SColor src n i dst) = length dst"
proof (induction src n i dst rule: convert_BGR8_to_SColor.induct)
  case (1 src n i dst)
  then show ?case by (subst convert_BGR8_to_SColor.simps) simp
qed

lemma convert_BGR8_nth:
  assumes "n \<le> length dst"
  shows "convert_BGR8_to_SColor src n i dst ! j =
     (if i \<le> j \<and> j < n then bgr8 (src ! (3 * j)) (src ! (3 * j + 1)) (src ! (3 * j + 2))
      else dst ! j)"
  using assms
proof (induction src n i dst rule: convert_BGR8_to_SColor.induct)
  case (1 src n i dst)
  show ?case
  proof (cases "i < n")
    case False
    then show ?thesis by (subst convert_BGR8_to_SColor.simps) auto
  next
    case True
    have "convert_BGR8_to_SColor src n (Suc i)
            (dst[i := bgr8 (src ! (3 * i)) (src ! (3 * i + 1)) (src ! (3 * i + 2))]) ! j =
        (if Suc i \<le> j \<and> j < n then bgr8 (src ! (3 * j)) (src ! (3 * j + 1)) (src ! (3 * j + 2))
         else (dst[i := bgr8 (src ! (3 * i)) (src ! (3 * i + 1)) (src ! (3 * i + 2))]) ! j)"
      using "1.prems" by (intro "1.IH" [OF True]) simp
    then show ?thesis
      using True "1.prems"
      by (subst convert_BGR8_to_SColor.simps) (auto simp: nth_list_update)
  qed
qed

lemma convert_BGRA8_length: "length (convert_BGRA8_to_SColor src n i dst) = length dst"
proof (induction src n i dst rule: convert_BGRA8_to_SColor.induct)
  case (1 src n i dst)
  then show ?case by (subst convert_BGRA8_to_SColor.simps) simp
qed

lemma convert_BGRA8_nth:
  assumes "n \<le> length dst"
  shows "convert_BGRA8_to_SColor src n i dst ! j =
     (if i \<le> j \<and> j < n
      then bgra8 (src ! (4 * j)) (src ! (4 * j + 1)) (src ! (4 * j + 2)) (src ! (4 * j + 3))
      else dst ! j)"
  using assms
proof (induction src n i dst rule: convert_BGRA8_to_SColor.induct)
  case (1 src n i dst)
  show ?case
  proof (cases "i < n")
    case False
    then show ?thesis by (subst convert_BGRA8_to_SColor.simps) auto
  next
    case True
    have "convert_BGRA8_to_SColor src n (Suc i)
            (dst[i := bgra8 (src ! (4 * i)) (src ! (4 * i + 1)) (src ! (4 * i + 2))
                        (src ! (4 * i + 3))]) ! j =
        (if Suc i \<le> j \<and> j < n
         then bgra8 (src ! (4 * j)) (src ! (4 * j + 1)) (src ! (4 * j + 2)) (src ! (4 * j + 3))
         else (dst[i := bgra8 (src ! (4 * i)) (src ! (4 * i + 1)) (src ! (4 * i + 2))
                        (src ! (4 * i + 3))]) ! j)"
      using "1.prems" by (intro "1.IH" [OF True]) simp
    then show ?thesis
      using True "1.prems"
      by (subst convert_BGRA8_to_SColor.simps) (auto simp: nth_list_update)
  qed
qed

lemma convert_A1R5G5B5_length:
  "length (convert_A1R5G5B5toA8R8G8B8 src n i dst) = length dst"
proof (induction src n i dst rule: convert_A1R5G5B5toA8R8G8B8.induct)
  case (1 src n i dst)
  then show ?case by (subst convert_A1R5G5B5toA8R8G8B8.simps) simp
qed

lemma convert_A1R5G5B5_nth:
  assumes "n \<le> length dst"
  shows "convert_A1R5G5B5toA8R8G8B8 src n i dst ! j =
     (if i \<le> j \<and> j < n then a1r5g5b5 (src ! (2 * j)) (src ! (2 * j + 1)) else dst ! j)"
  using assms
proof (induction src n i dst rule: convert_A1R5G5B5toA8R8G8B8.induct)
  case (1 src n i dst)
  show ?case
  proof (cases "i < n")
    case False
    then show ?thesis by (subst convert_A1R5G5B5toA8R8G8B8.simps) auto
  next
    case True
    have "convert_A1R5G5B5toA8R8G8B8 src n (Suc i)
            (dst[i := a1r5g5b5 (src ! (2 * i)) (src ! (2 * i + 1))]) ! j =
        (if Suc i \<le> j \<and> j < n then a1r5g5b5 (src ! (2 * j)) (src ! (2 * j + 1))
         else (dst[i := a1r5g5b5 (src ! (2 * i)) (src ! (2 * i + 1))]) ! j)"
      using "1.prems" by (intro "1.IH" [OF True]) simp
    then show ?thesis
      using True "1.prems"
      by (subst convert_A1R5G5B5toA8R8G8B8.simps) (auto simp: nth_list_update)
  qed
qed

lemma read_buffer_available:
  assumes "n \<le> length (unread f)"
  shows "fst (read_buffer n f) = map Some (take n (unread f))"
  using assms file_read_unread [of n f]
  by (simp add: read_buffer_def case_prod_beta)

lemma load_palette_Some:
  assumes cm: "ColorMapType header \<noteq> 0"
  shows "\<exists>palette f1 h. load_palette header f = (Some palette, f1, h)"
  using cm by (simp add: load_palette_def Let_def case_prod_beta)

lemma read_buffer_nth:
  assumes "k < n"
  shows "fst (read_buffer n f) ! k = (if k < length (unread f) then Some (unread f ! k) else None)"
proof -
  have bs: "fst (file_read n f) = take n (unread f)" using file_read_unread [of n f] by simp
  have rb: "fst (read_buffer n f)
      = map Some (take n (unread f)) @ replicate (n - length (take n (unread f))) None"
    by (simp add: read_buffer_def case_prod_beta bs)
  show ?thesis
  proof (cases "k < length (unread f)")
    case True
    then have "k < length (map Some (take n (unread f)))" using assms by simp
    then have "fst (read_buffer n f) ! k = map Some (take n (unread f)) ! k"
      by (simp only: rb nth_append if_True)
    then show ?thesis using True assms by simp
  next
    case False
    then have ge: "\<not> k < length (map Some (take n (unread f)))" by simp
    have "fst (read_buffer n f) ! k
        = replicate (n - length (take n (unread f))) None ! (k - length (map Some (take n (unread f))))"
      by (simp only: rb nth_append ge if_False)
    also have "\<dots> = None" using False assms by simp
    finally show ?thesis using False by simp
  qed
qed

lemma load_palette_entries:
  assumes cm: "ColorMapType header \<noteq> 0"
  shows "\<exists>palette f1 h. load_palette header f = (Some palette, f1, h) \<and>
     length palette = max 256 (unat (ColorMapLength header)) \<and>
     (\<forall>i. unat (ColorMapLength header) \<le> i \<and> i < 256 \<longrightarrow> palette ! i = Some 0xFFFF00CD) \<and>
     (\<forall>i. i < unat (ColorMapLength header) \<longrightarrow>
        (ColorMapEntrySize header = 16 \<longrightarrow>
           palette ! i =
             a1r5g5b5
               (fst (read_buffer (unat (ColorMapEntrySize header) div 8
                                  * unat (ColorMapLength header)) f) ! (2 * i))
               (fst (read_buffer (unat (ColorMapEntrySize header) div 8
                                  * unat (ColorMapLength header)) f) ! (2 * i + 1))) \<and>
        (ColorMapEntrySize header = 24 \<longrightarrow>
           palette ! i =
             bgr8
               (fst (read_buffer (unat (ColorMapEntrySize header) div 8
                                  * unat (ColorMapLength header)) f) ! (3 * i))
               (fst (read_buffer (unat (ColorMapEntrySize header) div 8
                                  * unat (ColorMapLength header)) f) ! (3 * i + 1))
               (fst (read_buffer (unat (ColorMapEntrySize header) div 8
                                  * unat (ColorMapLength header)) f) ! (3 * i + 2))) \<and>
        (ColorMapEntrySize header = 32 \<longrightarrow>
           palette ! i =
             bgra8
               (fst (read_buffer (unat (ColorMapEntrySize header) div 8
                                  * unat (ColorMapLength header)) f) ! (4 * i))
               (fst (read_buffer (unat (ColorMapEntrySize header) div 8
                                  * unat (ColorMapLength header)) f) ! (4 * i + 1))
               (fst (read_buffer (unat (ColorMapEntrySize header) div 8
                                  * unat (ColorMapLength header)) f) ! (4 * i + 2))
               (fst (read_buffer (unat (ColorMapEntrySize header) div 8
                                  * unat (ColorMapLength header)) f) ! (4 * i + 3))) \<and>
        (ColorMapEntrySize header \<noteq> 16 \<and> ColorMapEntrySize header \<noteq> 24 \<and>
         ColorMapEntrySize header \<noteq> 32 \<longrightarrow> palette ! i = None)) \<and>
     (\<forall>i. i < unat (ColorMapLength header) \<and>
          unat (ColorMapEntrySize header) div 8 * (i + 1) \<le> length (unread f) \<longrightarrow>
        (ColorMapEntrySize header = 16 \<longrightarrow>
           palette ! i =
             Some (A1R5G5B5toA8R8G8B8 (le16 (unread f ! (2 * i)) (unread f ! (2 * i + 1))))) \<and>
        (ColorMapEntrySize header = 24 \<longrightarrow>
           palette ! i =
             Some (0xFF000000 OR push_bit 16 (ucast (unread f ! (3 * i + 2)))
                   OR push_bit 8 (ucast (unread f ! (3 * i + 1))) OR ucast (unread f ! (3 * i)))) \<and>
        (ColorMapEntrySize header = 32 \<longrightarrow>
           palette ! i =
             Some (push_bit 24 (ucast (unread f ! (4 * i + 3)))
                   OR push_bit 16 (ucast (unread f ! (4 * i + 2)))
                   OR push_bit 8 (ucast (unread f ! (4 * i + 1))) OR ucast (unread f ! (4 * i)))))"
proof -
  let ?len = "ColorMapLength header"
  let ?es = "ColorMapEntrySize header"
  define paletteSize :: u16 where "paletteSize = (if 256 > ?len then 256 else ?len)"
  define p0 :: "u32 option list" where "p0 = replicate (unat paletteSize) None"
  define p1 where "p1 = (if paletteSize > ?len then fill_errorCol ?len paletteSize p0 else p0)"
  define n where "n = unat ?es div 8 * unat ?len"
  define cmap where "cmap = fst (read_buffer n f)"
  define p2 where "p2 =
     (if ?es = 16 then convert_A1R5G5B5toA8R8G8B8 cmap (unat ?len) 0 p1
      else if ?es = 24 then convert_BGR8_to_SColor cmap (unat ?len) 0 p1
      else if ?es = 32 then convert_BGRA8_to_SColor cmap (unat ?len) 0 p1
      else p1)"
  have lp: "load_palette header f =
      (Some p2, snd (read_buffer n f), [New Palette (unat paletteSize), New ColorMap n, Delete ColorMap])"
    using cm
    by (simp add: load_palette_def Let_def case_prod_beta p2_def cmap_def n_def p1_def p0_def
          paletteSize_def)
  have ps: "unat paletteSize = max 256 (unat ?len)"
    by (auto simp: paletteSize_def word_less_nat_alt)
  have l0: "length p0 = unat paletteSize" by (simp add: p0_def)
  have l1: "length p1 = unat paletteSize" by (simp add: p1_def l0 fill_errorCol_length)
  have l2: "length p2 = unat paletteSize"
    by (simp add: p2_def l1 convert_A1R5G5B5_length convert_BGR8_length convert_BGRA8_length)
  have le: "unat ?len \<le> length p1" by (simp add: l1 ps)
  have p1_hi: "p1 ! i = Some errorCol" if "unat ?len \<le> i" "i < 256" for i
  proof -
    have "unat ?len < 256" using that by simp
    then have gt: "paletteSize > ?len" and sz: "unat paletteSize = 256"
      by (simp_all add: paletteSize_def word_less_nat_alt)
    have "unat paletteSize \<le> length p0" by (simp add: l0)
    from fill_errorCol_nth [OF this, of ?len i] gt that sz
    show ?thesis by (simp add: p1_def)
  qed
  have p1_lo: "p1 ! i = None" if "i < unat ?len" for i
  proof (cases "paletteSize > ?len")
    case True
    have "unat paletteSize \<le> length p0" by (simp add: l0)
    from fill_errorCol_nth [OF this, of ?len i] True that
    have "p1 ! i = p0 ! i" by (simp add: p1_def)
    moreover have "i < unat paletteSize" using that ps by simp
    ultimately show ?thesis by (simp add: p0_def)
  next
    case False
    moreover have "i < unat paletteSize" using that ps by simp
    ultimately show ?thesis by (simp add: p1_def p0_def)
  qed
  have p2_hi: "p2 ! i = p1 ! i" if "unat ?len \<le> i" for i
    using that le
    by (simp add: p2_def convert_A1R5G5B5_nth convert_BGR8_nth convert_BGRA8_nth)
  have hi: "p2 ! i = Some 0xFFFF00CD" if "unat ?len \<le> i \<and> i < 256" for i
    using that p1_hi [of i] p2_hi [of i] by (simp add: errorCol_value)
  have b16: "p2 ! i = a1r5g5b5 (cmap ! (2 * i)) (cmap ! (2 * i + 1))"
    if "i < unat ?len" "?es = 16" for i
    using that le by (simp add: p2_def convert_A1R5G5B5_nth)
  have b24: "p2 ! i = bgr8 (cmap ! (3 * i)) (cmap ! (3 * i + 1)) (cmap ! (3 * i + 2))"
    if "i < unat ?len" "?es = 24" for i
    using that le by (simp add: p2_def convert_BGR8_nth)
  have b32: "p2 ! i = bgra8 (cmap ! (4 * i)) (cmap ! (4 * i + 1)) (cmap ! (4 * i + 2))
        (cmap ! (4 * i + 3))"
    if "i < unat ?len" "?es = 32" for i
    using that le by (simp add: p2_def convert_BGRA8_nth)
  have other: "p2 ! i = None"
    if "i < unat ?len" "?es \<noteq> 16 \<and> ?es \<noteq> 24 \<and> ?es \<noteq> 32" for i
    using that p1_lo by (simp add: p2_def)
  have cm_nth: "cmap ! k = Some (unread f ! k)" if "k < n" "k < length (unread f)" for k
    using read_buffer_nth [OF that(1), of f] that(2) by (simp add: cmap_def)
  have e16: "p2 ! i = Some (A1R5G5B5toA8R8G8B8 (le16 (unread f ! (2 * i)) (unread f ! (2 * i + 1))))"
    if "i < unat ?len" "unat ?es div 8 * (i + 1) \<le> length (unread f)" "?es = 16" for i
  proof -
    have "n = 2 * unat ?len" using that(3) by (simp add: n_def)
    then have "2 * i < n" "2 * i + 1 < n" using that(1) by simp_all
    moreover have "2 * i < length (unread f)" "2 * i + 1 < length (unread f)"
      using that(2,3) by simp_all
    ultimately show ?thesis
      using b16 [OF that(1,3)] by (simp add: cm_nth a1r5g5b5_def)
  qed
  have e24: "p2 ! i = Some (0xFF000000 OR push_bit 16 (ucast (unread f ! (3 * i + 2)))
                   OR push_bit 8 (ucast (unread f ! (3 * i + 1))) OR ucast (unread f ! (3 * i)))"
    if "i < unat ?len" "unat ?es div 8 * (i + 1) \<le> length (unread f)" "?es = 24" for i
  proof -
    have "n = 3 * unat ?len" using that(3) by (simp add: n_def)
    then have "3 * i < n" "3 * i + 1 < n" "3 * i + 2 < n" using that(1) by simp_all
    moreover have "3 * i < length (unread f)" "3 * i + 1 < length (unread f)"
        "3 * i + 2 < length (unread f)"
      using that(2,3) by simp_all
    ultimately show ?thesis
      using b24 [OF that(1,3)] by (simp add: cm_nth bgr8_def)
  qed
  have e32: "p2 ! i = Some (push_bit 24 (ucast (unread f ! (4 * i + 3)))
                   OR push_bit 16 (ucast (unread f ! (4 * i + 2)))
                   OR push_bit 8 (ucast (unread f ! (4 * i + 1))) OR ucast (unread f ! (4 * i)))"
    if "i < unat ?len" "unat ?es div 8 * (i + 1) \<le> length (unread f)" "?es = 32" for i
  proof -
    have "n = 4 * unat ?len" using that(3) by (simp add: n_def)
    then have "4 * i < n" "4 * i + 1 < n" "4 * i + 2 < n" "4 * i + 3 < n"
      using that(1) by simp_all
    moreover have "4 * i < length (unread f)" "4 * i + 1 < length (unread f)"
        "4 * i + 2 < length (unread f)" "4 * i + 3 < length (unread f)"
      using that(2,3) by simp_all
    ultimately show ?thesis
      using b32 [OF that(1,3)] by (simp add: cm_nth bgra8_def)
  qed
  have len: "length p2 = max 256 (unat ?len)" using l2 ps by simp
  have A: "\<forall>i. unat ?len \<le> i \<and> i < 256 \<longrightarrow> p2 ! i = Some 0xFFFF00CD"
    using hi by blast
  have B: "\<forall>i. i < unat ?len \<longrightarrow>
        (?es = 16 \<longrightarrow> p2 ! i = a1r5g5b5 (cmap ! (2 * i)) (cmap ! (2 * i + 1))) \<and>
        (?es = 24 \<longrightarrow> p2 ! i = bgr8 (cmap ! (3 * i)) (cmap ! (3 * i + 1)) (cmap ! (3 * i + 2))) \<and>
        (?es = 32 \<longrightarrow> p2 ! i = bgra8 (cmap ! (4 * i)) (cmap ! (4 * i + 1)) (cmap ! (4 * i + 2))
                                   (cmap ! (4 * i + 3))) \<and>
        (?es \<noteq> 16 \<and> ?es \<noteq> 24 \<and> ?es \<noteq> 32 \<longrightarrow> p2 ! i = None)"
    using b16 b24 b32 other by blast
  have C: "\<forall>i. i < unat ?len \<and> unat ?es div 8 * (i + 1) \<le> length (unread f) \<longrightarrow>
        (?es = 16 \<longrightarrow>
           p2 ! i =
             Some (A1R5G5B5toA8R8G8B8 (le16 (unread f ! (2 * i)) (unread f ! (2 * i + 1))))) \<and>
        (?es = 24 \<longrightarrow>
           p2 ! i =
             Some (0xFF000000 OR push_bit 16 (ucast (unread f ! (3 * i + 2)))
                   OR push_bit 8 (ucast (unread f ! (3 * i + 1))) OR ucast (unread f ! (3 * i)))) \<and>
        (?es = 32 \<longrightarrow>
           p2 ! i =
             Some (push_bit 24 (ucast (unread f ! (4 * i + 3)))
                   OR push_bit 16 (ucast (unread f ! (4 * i + 2)))
                   OR push_bit 8 (ucast (unread f ! (4 * i + 1))) OR ucast (unread f ! (4 * i))))"
    using e16 e24 e32 by blast
  show ?thesis
    unfolding n_def [symmetric] cmap_def [symmetric]
    using lp len A B C by blast
qed

lemma load_palette_events:
  assumes "ColorMapType header \<noteq> 0"
  shows "snd (snd (load_palette header f)) =
     [New Palette (max 256 (unat (ColorMapLength header))),
      New ColorMap (unat (ColorMapEntrySize header) div 8 * unat (ColorMapLength header)),
      Delete ColorMap]"
    and "fst (load_palette header f) \<noteq> None"
  using assms
  by (auto simp: load_palette_def Let_def case_prod_beta word_less_nat_alt)

lemma load_palette_none:
  assumes "ColorMapType header = 0"
  shows "load_palette header f = (None, f, [])"
  using assms by (simp add: load_palette_def)

text \<open>
  The \<^verbatim>\<open>switch\<close> on the pixel depth, for a header whose pixel data has been loaded: the
  format, the conversion with its arguments, and the diagnostics.
\<close>

lemma loadImage_format_by_depth:
  assumes rh: "read_header f = Inr (header, f1)"
    and dims: "unat (ImageWidth header) \<le> maxdim \<and> unat (ImageHeight header) \<le> maxdim"
    and ty: "ImageType header = 1 \<or> ImageType header = 2 \<or> ImageType header = 3
             \<or> ImageType header = 10"
    and sz: "raw_size header < 2 ^ 31"
    and lp: "load_palette header (id_skipped header f1) = (p, f3, h)"
  shows "\<exists>r d msgs. loadImage maxdim f = Inr r \<and>
     load_pixels header f3 = Inr (Some (d, msgs)) \<and> length d = raw_size header \<and>
     (ImageType header \<noteq> 10 \<longrightarrow> d = fst (read_buffer (raw_size header) f3) \<and> msgs = []) \<and>
     (ImageType header = 10 \<longrightarrow>
        (\<exists>st. loadCompressedImage f3 header = Inr st \<and> d = data st \<and> msgs = messages st)) \<and>
     result r =
       (if PixelDepth header = 8 then
          (if ImageType header = 3 then
             Some \<lparr>format = ECF_R8G8B8,
                    dimension = (ucast (ImageWidth header), ucast (ImageHeight header)),
                    filled_by = convert8BitTo24Bit d (ImageDescriptor header AND 0x20 = 0)\<rparr>
           else
             Some \<lparr>format = ECF_A8R8G8B8,
                    dimension = (ucast (ImageWidth header), ucast (ImageHeight header)),
                    filled_by = convert8BitTo32Bit d p (ImageDescriptor header AND 0x20 = 0)\<rparr>)
        else if PixelDepth header = 16 then
          Some \<lparr>format = ECF_A1R5G5B5,
                 dimension = (ucast (ImageWidth header), ucast (ImageHeight header)),
                 filled_by = convert16BitTo16Bit d (ImageDescriptor header AND 0x20 = 0)\<rparr>
        else if PixelDepth header = 24 then
          Some \<lparr>format = ECF_R8G8B8,
                 dimension = (ucast (ImageWidth header), ucast (ImageHeight header)),
                 filled_by = convert24BitTo24Bit d (ImageDescriptor header AND 0x20 = 0) True\<rparr>
        else if PixelDepth header = 32 then
          Some \<lparr>format = ECF_A8R8G8B8,
                 dimension = (ucast (ImageWidth header), ucast (ImageHeight header)),
                 filled_by = convert32BitTo32Bit d (ImageDescriptor header AND 0x20 = 0)\<rparr>
        else None) \<and>
     logged r =
       msgs @ (if PixelDepth header = 8 \<or> PixelDepth header = 16 \<or> PixelDepth header = 24
                  \<or> PixelDepth header = 32 then []
               else [(''Unsupported TGA format'', fileName f, ELL_ERROR)])"
proof -
  have chk: "checkImageDimensions maxdim (ucast (ImageWidth header)) (ucast (ImageHeight header))"
    using dims by (simp add: checkImageDimensions_def unat_ucast_u16)
  obtain d msgs where px: "load_pixels header f3 = Inr (Some (d, msgs))"
    and len: "length d = raw_size header"
    and raw: "ImageType header \<noteq> 10 \<longrightarrow> d = fst (read_buffer (raw_size header) f3) \<and> msgs = []"
    and rle: "ImageType header = 10 \<longrightarrow>
        (\<exists>st. loadCompressedImage f3 header = Inr st \<and> d = data st \<and> msgs = messages st)"
    using load_pixels_data [OF sz ty, of f3] by blast
  obtain img l where cp: "convert_pixels header d p (fileName f3) = (img, l)"
    by (cases "convert_pixels header d p (fileName f3)")
  have nm: "fileName f3 = fileName f"
  proof -
    have "fileName (id_skipped header f1) = fileName f1"
      by (simp add: id_skipped_def file_seek_fileName)
    moreover have "fileName f3 = fileName (id_skipped header f1)"
      using load_palette_fileName [of header "id_skipped header f1"] lp by simp
    ultimately show ?thesis using read_header_fileName [OF rh] by simp
  qed
  have li: "loadImage maxdim f =
      Inr \<lparr>result = img, logged = msgs @ l,
           heap = h @ [New PixelData (length d), Delete PixelData] @ delete_palette p\<rparr>"
    using chk lp by (simp add: loadImage_def rh id_skipped_def px cp)
  have img: "img = fst (convert_pixels header d p (fileName f3))" by (simp add: cp)
  have l: "l = snd (convert_pixels header d p (fileName f3))" by (simp add: cp)
  show ?thesis
    using len px raw rle
    by (intro exI [of _ "\<lparr>result = img, logged = msgs @ l,
           heap = h @ [New PixelData (length d), Delete PixelData] @ delete_palette p\<rparr>"]
          exI [of _ d] exI [of _ msgs])
       (simp add: li img l nm convert_pixels_def flip_def image_size_def)
qed

text \<open>
  The signature check compares all 18 bytes of the signature field, and for a stream of at
  least 26 bytes the field is the end of the stream.
\<close>

lemma isALoadableFileFormat_exact:
  "isALoadableFileFormat None = Inr False \<and>
   isALoadableFileFormat (Some f) = Inr (drop 8 (footer_read f) = signature_bytes) \<and>
   (26 \<le> getSize f \<longrightarrow>
      isALoadableFileFormat (Some f)
        = Inr (drop (getSize f - 18) (contents f) = signature_bytes))"
  using isALoadableFileFormat_eq [of f] footer_read_long [of f]
  by (simp add: isALoadableFileFormat_def)

section \<open>Properties of the run-length decompressor\<close>

text \<open>
  Claim C1: the decompressor never stores outside the buffer of
  \<open>width * height * bytesPerPixel\<close> bytes, for every stream and every header.
  The guards compare 32-bit sums, and a sum that wraps around passes them. The header
  20853 x 18724 at a pixel depth of 88 bits has width and height below 23000 and an image
  size of \<open>2 ^ 32 - 4\<close> bytes, 11 bytes a pixel. On a stream of 3050403 full run packets
  the last packet starts 116 pixels before the end of the buffer: its sample and 115
  repetitions fill the buffer, and for the next repetition
  \<^verbatim>\<open>currentByte + bytesPerPixel <= imageSize\<close> is \<open>7 \<le> 2 ^ 32 - 4\<close>, so the copy stores at
  offset \<open>2 ^ 32 - 4\<close>, the first byte behind the buffer.
\<close>

theorem C1_overflowing_run_writes_past_buffer:
  "loadCompressedImage
     \<lparr>contents = concat (replicate 3050402 full_packet) @ full_packet, pos = 0,
      fileName = ''a.tga''\<rparr> (rle_header 20853 18724 88)
   = Inl (OutOfBoundsWrite 4294967292)"
proof -
  let ?f = "\<lparr>contents = concat (replicate 3050402 full_packet) @ full_packet, pos = 0,
      fileName = ''a.tga''\<rparr>"
  let ?st = "\<lparr>tgafile = ?f, data = replicate (unat (imageSize (rle_header 20853 18724 88))) None,
        currentByte = 0, messages = []\<rparr>"
  have b: "unat (bytesPerPixel (rle_header 20853 18724 88)) = 11" by (simp add: huge_bytesPerPixel)
  have S: "unat (imageSize (rle_header 20853 18724 88)) = 4294967292" by (simp add: huge_imageSize)
  have un: "unread (tgafile ?st)
      = concat (replicate 3050402 (255 # replicate 11 0)) @ (255 # replicate 11 0 @ [])"
    by (simp add: unread_def full_packet_def)
  have px: "length (replicate 11 (0 :: u8)) = unat (bytesPerPixel (rle_header 20853 18724 88))"
    by (simp add: b)
  obtain s1 where l1: "rle_loop (rle_header 20853 18724 88) ?st = rle_loop (rle_header 20853 18724 88) s1"
    and u1: "unread (tgafile s1) = 255 # replicate 11 0 @ []"
    and d1: "length (data s1) = unat (imageSize (rle_header 20853 18724 88))"
    and c1: "unat (currentByte s1) = unat (currentByte ?st) + 3050402 * (128 * unat (bytesPerPixel (rle_header 20853 18724 88)))"
    using rle_loop_full_runs [OF un px] by (auto simp: b S)
  have reach: "unat (currentByte s1) + 116 * unat (bytesPerPixel (rle_header 20853 18724 88))
      = unat (imageSize (rle_header 20853 18724 88))"
    by (simp add: c1 b S)
  have "rle_loop (rle_header 20853 18724 88) s1 = Inl (OutOfBoundsWrite (unat (imageSize (rle_header 20853 18724 88))))"
    by (rule overlong_run_faults [OF u1 px d1 reach]) (simp_all add: b S)
  then have e: "rle_loop (rle_header 20853 18724 88) s1 = Inl (OutOfBoundsWrite 4294967292)"
    by (simp only: S)
  have "rle_loop (rle_header 20853 18724 88) ?st = Inl (OutOfBoundsWrite 4294967292)"
    using l1 e by (rule trans)
  then show ?thesis unfolding loadCompressedImage_def .
qed

text \<open>
  Claim C2: a well-formed stream whose packets encode exactly the image, also one whose
  last packet is a run packet ending at the end of the buffer, is decoded completely.
  The code stops early on such a stream: for a 2 x 1 image of depth 8 the stream
  \<open>00 11 80 22\<close> is a raw packet of one pixel and a run packet of one pixel, two bytes
  in all. The run packet's check \<^verbatim>\<open>dataOffset + bytesPerPixel < imageSize\<close> is strict
  (the raw packet and the repetitions compare with \<^verbatim>\<open><=\<close>), so the last pixel is refused
  with a warning and stays unwritten.
\<close>

theorem C2_last_run_pixel_dropped:
  "loadCompressedImage (tga [0x00, 0x11, 0x80, 0x22]) (rle_header 2 1 8)
   = Inr \<lparr>tgafile = \<lparr>contents = [0x00, 0x11, 0x80, 0x22], pos = 3, fileName = ''a.tga''\<rparr>,
          data = [Some 0x11, None], currentByte = 1,
          messages = [(''Compressed TGA file RLE headertries writing beyond buffer'',
                       ''a.tga'', ELL_WARNING)]\<rparr>"
  by code_simp




text \<open>
  Claim C4: a run packet with header byte \<open>h\<close> whose output fits reads one sample and
  writes \<open>h - 127\<close> copies of it. The run packet \<open>80 22\<close> (one copy) fits the last
  pixel of a 2 x 1 image exactly; the code refuses it: the sample is not read (the
  cursor moves over the header byte only) and nothing is written.
\<close>

theorem C4_single_pixel_run_refused:
  "rle_packet (rle_header 2 1 8)
     \<lparr>tgafile = \<lparr>contents = [0x00, 0x11, 0x80, 0x22], pos = 2, fileName = ''a.tga''\<rparr>,
      data = [Some 0x11, None], currentByte = 1, messages = []\<rparr>
   = Inr (Break
       \<lparr>tgafile = \<lparr>contents = [0x00, 0x11, 0x80, 0x22], pos = 3, fileName = ''a.tga''\<rparr>,
        data = [Some 0x11, None], currentByte = 1,
        messages = [(''Compressed TGA file RLE headertries writing beyond buffer'',
                     ''a.tga'', ELL_WARNING)]\<rparr>)"
  by code_simp

text \<open>
  Claim C10, as the code has it. The packet loop terminates on every stream and header:
  that is the termination proof of \<open>rle_loop\<close> above. Whenever the decompressor
  returns, its buffer has \<open>width * height * bytesPerPixel\<close> modulo \<open>2 ^ 32\<close> bytes.
  Below a pixel depth of 8 the image size is 0 and the loop body never runs (the stream
  is untouched). For every header with headroom the decompressor returns a buffer of
  exactly \<open>width * height * bytesPerPixel\<close> bytes, and every iteration from an offset
  below the image size either continues with the offset advanced by at least
  \<open>bytesPerPixel > 0\<close>, or breaks.
\<close>

theorem C10_terminates_with_sized_buffer:
  "(\<forall>st'. loadCompressedImage f header = Inr st' \<longrightarrow>
      length (data st') =
        (unat (ImageHeight header) * unat (ImageWidth header)
           * (unat (PixelDepth header) div 8)) mod 2 ^ 32) \<and>
   (PixelDepth header < 8 \<longrightarrow>
      loadCompressedImage f header =
        Inr \<lparr>tgafile = f, data = [], currentByte = 0, messages = []\<rparr>) \<and>
   (packet_headroom header \<longrightarrow>
      (\<exists>st'. loadCompressedImage f header = Inr st' \<and>
         length (data st') =
           unat (ImageHeight header) * unat (ImageWidth header)
             * (unat (PixelDepth header) div 8)) \<and>
      (\<forall>st. length (data st) = unat (imageSize header) \<and>
            currentByte st < imageSize header \<longrightarrow>
         (\<exists>st'. rle_packet header st = Inr (Continue st') \<and>
                0 < unat (bytesPerPixel header) \<and>
                unat (currentByte st) + unat (bytesPerPixel header)
                  \<le> unat (currentByte st')) \<or>
         (\<exists>w. rle_packet header st =
            Inr (Break (st\<lparr>tgafile := snd (read_chunkheader (tgafile st)),
                           messages := messages st @ [w]\<rparr>)))))"
proof (intro conjI allI impI)
  fix st'
  assume "loadCompressedImage f header = Inr st'"
  then show "length (data st') =
      (unat (ImageHeight header) * unat (ImageWidth header)
         * (unat (PixelDepth header) div 8)) mod 2 ^ 32"
    by (simp add: loadCompressedImage_length unat_imageSize_mod)
next
  assume "PixelDepth header < 8"
  then have "imageSize header = 0" by (rule shallow_imageSize)
  then show "loadCompressedImage f header =
      Inr \<lparr>tgafile = f, data = [], currentByte = 0, messages = []\<rparr>"
    by (simp add: loadCompressedImage_def rle_loop.simps)
next
  assume "packet_headroom header"
  then show "\<exists>st'. loadCompressedImage f header = Inr st' \<and>
         length (data st') =
           unat (ImageHeight header) * unat (ImageWidth header)
             * (unat (PixelDepth header) div 8)"
    by (rule loadCompressedImage_no_fault)
next
  fix st :: rle_state
  assume hr: "packet_headroom header"
    and a: "length (data st) = unat (imageSize header) \<and> currentByte st < imageSize header"
  then have len: "length (data st) = unat (imageSize header)"
    and c: "currentByte st < imageSize header" by simp_all
  have "bytesPerPixel header \<noteq> 0"
  proof
    assume "bytesPerPixel header = 0"
    then have "imageSize header = 0" by (simp add: imageSize_def)
    with c show False by simp
  qed
  then have "0 < unat (bytesPerPixel header)" by (simp add: unat_gt_0)
  with rle_packet_cases [OF headroom_room [OF hr] len c]
  show "(\<exists>st'. rle_packet header st = Inr (Continue st') \<and>
                0 < unat (bytesPerPixel header) \<and>
                unat (currentByte st) + unat (bytesPerPixel header)
                  \<le> unat (currentByte st')) \<or>
         (\<exists>w. rle_packet header st =
            Inr (Break (st\<lparr>tgafile := snd (read_chunkheader (tgafile st)),
                           messages := messages st @ [w]\<rparr>)))"
    by auto
qed

text \<open>
  At concrete inputs: a 2 x 1 image of depth 8 decoded from the run packet \<open>81 07\<close>, one
  iteration from its initial state, and the same stream under a pixel depth of 4.
\<close>

theorem C10_terminates_with_sized_buffer_witness:
  "packet_headroom (rle_header 2 1 8) \<and>
   loadCompressedImage (tga [0x81, 0x07]) (rle_header 2 1 8)
     = Inr \<lparr>tgafile = \<lparr>contents = [0x81, 0x07], pos = 2, fileName = ''a.tga''\<rparr>,
            data = [Some 0x07, Some 0x07], currentByte = 2, messages = []\<rparr> \<and>
   (\<exists>st'. loadCompressedImage (tga [0x81, 0x07]) (rle_header 2 1 8) = Inr st' \<and>
      length (data st') = 2) \<and>
   currentByte \<lparr>tgafile = tga [0x81, 0x07], data = [None, None], currentByte = 0,
       messages = []\<rparr> < imageSize (rle_header 2 1 8) \<and>
   rle_packet (rle_header 2 1 8)
       \<lparr>tgafile = tga [0x81, 0x07], data = [None, None], currentByte = 0, messages = []\<rparr>
     = Inr (Continue
         \<lparr>tgafile = \<lparr>contents = [0x81, 0x07], pos = 2, fileName = ''a.tga''\<rparr>,
          data = [Some 0x07, Some 0x07], currentByte = 2, messages = []\<rparr>) \<and>
   0 < unat (bytesPerPixel (rle_header 2 1 8)) \<and>
   PixelDepth (rle_header 2 1 4) < 8 \<and>
   loadCompressedImage (tga [0x81, 0x07]) (rle_header 2 1 4) =
     Inr \<lparr>tgafile = tga [0x81, 0x07], data = [], currentByte = 0, messages = []\<rparr>"
proof -
  let ?h = "rle_header 2 1 8"
  let ?st = "\<lparr>tgafile = tga [0x81, 0x07], data = [None, None], currentByte = 0,
       messages = []\<rparr>"
  have h: "packet_headroom ?h" by (simp add: packet_headroom_def rle_header_def)
  have d: "PixelDepth (rle_header 2 1 4) < 8" by (simp add: rle_header_def)
  have S: "imageSize ?h = 2" "bytesPerPixel ?h = 1"
    by (simp_all add: imageSize_def bytesPerPixel_def rle_header_def)
  have e: "loadCompressedImage (tga [0x81, 0x07]) ?h
     = Inr \<lparr>tgafile = \<lparr>contents = [0x81, 0x07], pos = 2, fileName = ''a.tga''\<rparr>,
            data = [Some 0x07, Some 0x07], currentByte = 2, messages = []\<rparr>"
    by code_simp
  have it: "rle_packet ?h ?st
     = Inr (Continue
         \<lparr>tgafile = \<lparr>contents = [0x81, 0x07], pos = 2, fileName = ''a.tga''\<rparr>,
          data = [Some 0x07, Some 0x07], currentByte = 2, messages = []\<rparr>)"
    by code_simp
  note t = C10_terminates_with_sized_buffer [of "tga [0x81, 0x07]" ?h]
  note u = C10_terminates_with_sized_buffer [of "tga [0x81, 0x07]" "rle_header 2 1 4"]
  from t h have len: "\<exists>st'. loadCompressedImage (tga [0x81, 0x07]) ?h = Inr st' \<and>
      length (data st') = 2"
    by (simp add: rle_header_def)
  from u d have sh: "loadCompressedImage (tga [0x81, 0x07]) (rle_header 2 1 4) =
     Inr \<lparr>tgafile = tga [0x81, 0x07], data = [], currentByte = 0, messages = []\<rparr>"
    by blast
  from h e len it d sh show ?thesis by (simp add: S)
qed

text \<open>
  Claim C10 as stated fails for a header whose size does not fit 32 bits: 16384 x 16384
  pixels of 16 bytes are \<open>2 ^ 32\<close> bytes, the computed image size is 0, and the buffer
  returned is empty.
\<close>

theorem C10_wrapped_size_gives_empty_buffer:
  "loadCompressedImage (tga []) (rle_header 16384 16384 128) =
     Inr \<lparr>tgafile = tga [], data = [], currentByte = 0, messages = []\<rparr> \<and>
   unat (ImageHeight (rle_header 16384 16384 128)) * unat (ImageWidth (rle_header 16384 16384 128))
     * (unat (PixelDepth (rle_header 16384 16384 128)) div 8) = 4294967296"
proof -
  have "imageSize (rle_header 16384 16384 128) = 0"
    by (simp add: imageSize_def bytesPerPixel_def rle_header_def)
  then show ?thesis
    by (simp add: loadCompressedImage_def rle_loop.simps) (simp add: rle_header_def)
qed

section \<open>Properties of the loader and of the signature check\<close>

text \<open>
  Claim C5: the declared width and height are validated against the configured maximum
  before any buffer is sized from them. When the header has been read and either
  dimension exceeds the maximum, \<^verbatim>\<open>loadImage\<close> logs that the dimensions are too large and
  returns no image, and its trace of allocations is empty: neither a palette nor a pixel
  buffer was ever allocated.
\<close>

theorem C5_dimensions_checked_first:
  assumes "read_header f = Inr (header, f1)"
    and "maxdim < unat (ImageWidth header) \<or> maxdim < unat (ImageHeight header)"
  shows "loadImage maxdim f =
     Inr \<lparr>result = None,
          logged = [(''Image dimensions too large in file'', fileName f, ELL_ERROR)],
          heap = []\<rparr>"
proof -
  have "\<not> checkImageDimensions maxdim (ucast (ImageWidth header)) (ucast (ImageHeight header))"
    using assms(2) by (auto simp: checkImageDimensions_def unat_ucast_u16)
  then show ?thesis
    by (simp add: loadImage_def assms(1) read_header_fileName [OF assms(1)])
qed

text \<open>
  The header of a 65535 x 65535 image is refused with the default maximum of 23000.
\<close>

theorem C5_dimensions_checked_first_witness:
  "read_header (tga [0, 0, 2, 0, 0, 0, 0, 0, 0, 0, 0, 0, 0xFF, 0xFF, 0xFF, 0xFF, 24, 0, 7, 7, 7])
     = Inr ((rle_header 65535 65535 24)\<lparr>ImageType := 2\<rparr>,
            \<lparr>contents = [0, 0, 2, 0, 0, 0, 0, 0, 0, 0, 0, 0, 0xFF, 0xFF, 0xFF, 0xFF, 24, 0, 7, 7, 7],
             pos = 18, fileName = ''a.tga''\<rparr>) \<and>
   23000 < unat (ImageWidth ((rle_header 65535 65535 24)\<lparr>ImageType := 2\<rparr>)) \<and>
   loadImage 23000 (tga [0, 0, 2, 0, 0, 0, 0, 0, 0, 0, 0, 0, 0xFF, 0xFF, 0xFF, 0xFF, 24, 0, 7, 7, 7])
     = Inr \<lparr>result = None,
            logged = [(''Image dimensions too large in file'', ''a.tga'', ELL_ERROR)],
            heap = []\<rparr>"
proof -
  let ?f = "tga [0, 0, 2, 0, 0, 0, 0, 0, 0, 0, 0, 0, 0xFF, 0xFF, 0xFF, 0xFF, 24, 0, 7, 7, 7]"
  have rh: "read_header ?f
     = Inr ((rle_header 65535 65535 24)\<lparr>ImageType := 2\<rparr>,
            \<lparr>contents = [0, 0, 2, 0, 0, 0, 0, 0, 0, 0, 0, 0, 0xFF, 0xFF, 0xFF, 0xFF, 24, 0, 7, 7, 7],
             pos = 18, fileName = ''a.tga''\<rparr>)"
    by code_simp
  have big: "23000 < unat (ImageWidth ((rle_header 65535 65535 24)\<lparr>ImageType := 2\<rparr>))"
    by (simp add: rle_header_def)
  from C5_dimensions_checked_first [OF rh, of 23000] big rh show ?thesis by (simp add: tga_def)
qed

text \<open>
  Claim C6, for the entry sizes that the loader converts: when the colour map type is
  set, the palette has \<open>max 256 (declared length)\<close> entries, every index from the declared
  length up to 255 holds the sentinel \<^verbatim>\<open>SColor(255, 255, 0, 205)\<close>, and every index below
  the declared length holds the entry of the colour map, as it was read from the stream
  into the colour map buffer, converted by its declared size: a 16-bit entry by the
  1-5-5-5 expansion, a 24-bit entry as \<open>0xFF << 24 | r << 16 | g << 8 | b\<close> from the bytes
  b, g, r, a 32-bit entry as \<open>a << 24 | r << 16 | g << 8 | b\<close> from the bytes b, g, r, a.
  The last part spells the words out for the entries whose bytes the stream holds.
\<close>

theorem C6_palette_entries:
  assumes "ColorMapType header \<noteq> 0"
  shows "\<exists>palette f1 h. load_palette header f = (Some palette, f1, h) \<and>
     length palette = max 256 (unat (ColorMapLength header)) \<and>
     (\<forall>i. unat (ColorMapLength header) \<le> i \<and> i < 256 \<longrightarrow> palette ! i = Some 0xFFFF00CD) \<and>
     (let colorMap = fst (read_buffer (unat (ColorMapEntrySize header) div 8
                                       * unat (ColorMapLength header)) f)
      in \<forall>i. i < unat (ColorMapLength header) \<longrightarrow>
        (ColorMapEntrySize header = 16 \<longrightarrow>
           palette ! i = a1r5g5b5 (colorMap ! (2 * i)) (colorMap ! (2 * i + 1))) \<and>
        (ColorMapEntrySize header = 24 \<longrightarrow>
           palette ! i = bgr8 (colorMap ! (3 * i)) (colorMap ! (3 * i + 1)) (colorMap ! (3 * i + 2))) \<and>
        (ColorMapEntrySize header = 32 \<longrightarrow>
           palette ! i = bgra8 (colorMap ! (4 * i)) (colorMap ! (4 * i + 1)) (colorMap ! (4 * i + 2))
                           (colorMap ! (4 * i + 3)))) \<and>
     (\<forall>i. i < unat (ColorMapLength header) \<and>
          unat (ColorMapEntrySize header) div 8 * (i + 1) \<le> length (unread f) \<longrightarrow>
        (ColorMapEntrySize header = 16 \<longrightarrow>
           palette ! i =
             Some (A1R5G5B5toA8R8G8B8 (le16 (unread f ! (2 * i)) (unread f ! (2 * i + 1))))) \<and>
        (ColorMapEntrySize header = 24 \<longrightarrow>
           palette ! i =
             Some (0xFF000000 OR push_bit 16 (ucast (unread f ! (3 * i + 2)))
                   OR push_bit 8 (ucast (unread f ! (3 * i + 1))) OR ucast (unread f ! (3 * i)))) \<and>
        (ColorMapEntrySize header = 32 \<longrightarrow>
           palette ! i =
             Some (push_bit 24 (ucast (unread f ! (4 * i + 3)))
                   OR push_bit 16 (ucast (unread f ! (4 * i + 2)))
                   OR push_bit 8 (ucast (unread f ! (4 * i + 1))) OR ucast (unread f ! (4 * i)))))"
  unfolding Let_def using load_palette_entries [OF assms, of f] by blast

text \<open>
  Palettes of two 24-bit entries, of one 32-bit entry and of one 16-bit entry, and a
  palette of two 24-bit entries on a stream that ends inside the second one.
\<close>

theorem C6_palette_entries_witness:
  "ColorMapType (palette_header 2 24) \<noteq> 0 \<and>
   (\<exists>palette f1 h.
      load_palette (palette_header 2 24) (tga [0x11, 0x22, 0x33, 0x44, 0x55, 0x66])
        = (Some palette, f1, h) \<and>
      length palette = 256 \<and>
      palette ! 0 = Some 0xFF332211 \<and> palette ! 1 = Some 0xFF665544 \<and>
      palette ! 2 = Some 0xFFFF00CD \<and> palette ! 255 = Some 0xFFFF00CD) \<and>
   (\<exists>palette f1 h.
      load_palette (palette_header 1 32) (tga [0x11, 0x22, 0x33, 0x44])
        = (Some palette, f1, h) \<and> palette ! 0 = Some 0x44332211) \<and>
   (\<exists>palette f1 h.
      load_palette (palette_header 1 16) (tga [0x1F, 0x80])
        = (Some palette, f1, h) \<and> palette ! 0 = Some 0xFF0000FF) \<and>
   (\<exists>palette f1 h.
      load_palette (palette_header 2 24) (tga [0x11, 0x22, 0x33, 0x44])
        = (Some palette, f1, h) \<and>
      palette ! 0 = Some 0xFF332211 \<and> palette ! 1 = None \<and> palette ! 2 = Some 0xFFFF00CD)"
proof -
  let ?f = "tga [0x11, 0x22, 0x33, 0x44, 0x55, 0x66]"
  have cm: "ColorMapType (palette_header n e) \<noteq> 0" for n e by (simp add: palette_header_def)
  have a: "\<exists>palette f1 h. load_palette (palette_header 2 24) ?f = (Some palette, f1, h) \<and>
      length palette = 256 \<and>
      palette ! 0 = Some 0xFF332211 \<and> palette ! 1 = Some 0xFF665544 \<and>
      palette ! 2 = Some 0xFFFF00CD \<and> palette ! 255 = Some 0xFFFF00CD"
  proof -
    from C6_palette_entries [OF cm, of 2 24 ?f] obtain palette f1 h
      where lp: "load_palette (palette_header 2 24) ?f = (Some palette, f1, h)"
        and len: "length palette = 256"
        and hi: "\<And>i. 2 \<le> i \<Longrightarrow> i < 256 \<Longrightarrow> palette ! i = Some 0xFFFF00CD"
        and lo: "\<And>i. i < 2 \<Longrightarrow> 3 * (i + 1) \<le> length (unread ?f) \<Longrightarrow> palette ! i =
             Some (0xFF000000 OR push_bit 16 (ucast (unread ?f ! (3 * i + 2)))
                   OR push_bit 8 (ucast (unread ?f ! (3 * i + 1))) OR ucast (unread ?f ! (3 * i)))"
      by (auto simp: palette_header_def Let_def)
    have "palette ! 0 = Some 0xFF332211" using lo [of 0] by (simp add: unread_def tga_def)
    moreover have "palette ! 1 = Some 0xFF665544" using lo [of 1] by (simp add: unread_def tga_def)
    moreover have "palette ! 2 = Some 0xFFFF00CD" using hi [of 2] by simp
    moreover have "palette ! 255 = Some 0xFFFF00CD" using hi [of 255] by simp
    ultimately show ?thesis using lp len by blast
  qed
  have b: "\<exists>palette f1 h. load_palette (palette_header 1 32) (tga [0x11, 0x22, 0x33, 0x44])
        = (Some palette, f1, h) \<and> palette ! 0 = Some 0x44332211"
  proof -
    let ?g = "tga [0x11, 0x22, 0x33, 0x44]"
    from C6_palette_entries [OF cm, of 1 32 ?g] obtain palette f1 h
      where lp: "load_palette (palette_header 1 32) ?g = (Some palette, f1, h)"
        and lo: "\<And>i. i < 1 \<Longrightarrow> 4 * (i + 1) \<le> length (unread ?g) \<Longrightarrow> palette ! i =
             Some (push_bit 24 (ucast (unread ?g ! (4 * i + 3)))
                   OR push_bit 16 (ucast (unread ?g ! (4 * i + 2)))
                   OR push_bit 8 (ucast (unread ?g ! (4 * i + 1))) OR ucast (unread ?g ! (4 * i)))"
      by (auto simp: palette_header_def Let_def)
    have "palette ! 0 = Some 0x44332211" using lo [of 0] by (simp add: unread_def tga_def)
    then show ?thesis using lp by blast
  qed
  have c: "\<exists>palette f1 h. load_palette (palette_header 1 16) (tga [0x1F, 0x80])
        = (Some palette, f1, h) \<and> palette ! 0 = Some 0xFF0000FF"
  proof -
    let ?g = "tga [0x1F, 0x80]"
    from C6_palette_entries [OF cm, of 1 16 ?g] obtain palette f1 h
      where lp: "load_palette (palette_header 1 16) ?g = (Some palette, f1, h)"
        and lo: "\<And>i. i < 1 \<Longrightarrow> 2 * (i + 1) \<le> length (unread ?g) \<Longrightarrow> palette ! i =
             Some (A1R5G5B5toA8R8G8B8 (le16 (unread ?g ! (2 * i)) (unread ?g ! (2 * i + 1))))"
      by (auto simp: palette_header_def Let_def)
    have "palette ! 0 = Some 0xFF0000FF"
      using lo [of 0] by (simp add: unread_def tga_def le16_def A1R5G5B5toA8R8G8B8_def)
    then show ?thesis using lp by blast
  qed
  have d: "\<exists>palette f1 h. load_palette (palette_header 2 24) (tga [0x11, 0x22, 0x33, 0x44])
        = (Some palette, f1, h) \<and>
      palette ! 0 = Some 0xFF332211 \<and> palette ! 1 = None \<and> palette ! 2 = Some 0xFFFF00CD"
  proof -
    let ?g = "tga [0x11, 0x22, 0x33, 0x44]"
    have rb: "fst (read_buffer 6 ?g) = [Some 0x11, Some 0x22, Some 0x33, Some 0x44, None, None]"
      by (simp add: read_buffer_def file_read_def tga_def Let_def numeral_2_eq_2)
    from C6_palette_entries [OF cm, of 2 24 ?g] obtain palette f1 h
      where lp: "load_palette (palette_header 2 24) ?g = (Some palette, f1, h)"
        and hi: "\<And>i. 2 \<le> i \<Longrightarrow> i < 256 \<Longrightarrow> palette ! i = Some 0xFFFF00CD"
        and lo: "\<And>i. i < 2 \<Longrightarrow> palette ! i =
             bgr8 (fst (read_buffer 6 ?g) ! (3 * i)) (fst (read_buffer 6 ?g) ! (3 * i + 1))
                  (fst (read_buffer 6 ?g) ! (3 * i + 2))"
      by (auto simp: palette_header_def Let_def)
    have "palette ! 0 = Some 0xFF332211" using lo [of 0] by (simp add: rb bgr8_def)
    moreover have "palette ! 1 = None" using lo [of 1] by (simp add: rb bgr8_def)
    moreover have "palette ! 2 = Some 0xFFFF00CD" using hi [of 2] by simp
    ultimately show ?thesis using lp by blast
  qed
  from cm [of 2 24] a b c d show ?thesis by blast
qed

text \<open>
  Claim C6 as it is written also names 15-bit entries. The \<^verbatim>\<open>switch\<close> on the entry size has
  the cases 16, 24 and 32 and no other: with a declared entry size of 15 the entry below
  the declared length is not the expansion of the source entry, it is never written.
\<close>

theorem C6_fifteen_bit_entries_not_converted:
  "fst (load_palette (palette_header 1 15) (tga [0x12, 0x34])) \<noteq> None \<and>
   the (fst (load_palette (palette_header 1 15) (tga [0x12, 0x34]))) ! 0 = None"
proof -
  let ?h = "palette_header 1 15"
  let ?f = "tga [0x12, 0x34]"
  have cm: "ColorMapType ?h \<noteq> 0" by (simp add: palette_header_def)
  from load_palette_entries [OF cm, of ?f] obtain palette f1 h
    where lp: "load_palette ?h ?f = (Some palette, f1, h)"
      and lo: "\<And>i. i < 1 \<Longrightarrow> palette ! i = None"
    by (auto simp: palette_header_def)
  from lo [of 0] lp show ?thesis by simp
qed

text \<open>
  Claim C7: for every header whose image type is not 1, 2, 3 or 10 the decode fails as a
  whole: \<^verbatim>\<open>loadImage\<close> returns no image and no buffer is left allocated. When the dimensions
  were accepted, the log holds the one error about the file type, and a palette that had
  been allocated for the call (with its temporary colour map) has been released.
\<close>

theorem C7_unsupported_type_fails:
  assumes rh: "read_header f = Inr (header, f1)"
    and ty: "ImageType header \<noteq> 1 \<and> ImageType header \<noteq> 2 \<and> ImageType header \<noteq> 3
             \<and> ImageType header \<noteq> 10"
  shows "\<exists>r. loadImage maxdim f = Inr r \<and> result r = None \<and> allocated (heap r) = [] \<and>
     (unat (ImageWidth header) \<le> maxdim \<and> unat (ImageHeight header) \<le> maxdim \<longrightarrow>
        logged r = [(''Unsupported TGA file type'', fileName f, ELL_ERROR)] \<and>
        heap r =
          (if ColorMapType header \<noteq> 0
           then [New Palette (max 256 (unat (ColorMapLength header))),
                 New ColorMap (unat (ColorMapEntrySize header) div 8
                               * unat (ColorMapLength header)),
                 Delete ColorMap, Delete Palette]
           else []))"
proof (cases "checkImageDimensions maxdim (ucast (ImageWidth header)) (ucast (ImageHeight header))")
  case False
  then have "\<not> (unat (ImageWidth header) \<le> maxdim \<and> unat (ImageHeight header) \<le> maxdim)"
    by (simp add: checkImageDimensions_def unat_ucast_u16)
  with False show ?thesis by (simp add: loadImage_def rh allocated_def)
next
  case True
  define f2 where "f2 = (if IdLength header \<noteq> 0
      then snd (file_seek (uint (IdLength header)) True f1) else f1)"
  obtain p f3 h where lp: "load_palette header f2 = (p, f3, h)"
    by (cases "load_palette header f2")
  have px: "load_pixels header f3 = Inr None" using ty by (simp add: load_pixels_def)
  have n2: "fileName f2 = fileName f"
    using read_header_fileName [OF rh] by (simp add: f2_def file_seek_fileName)
  have n3: "fileName f3 = fileName f"
    using load_palette_fileName [OF lp] n2 by simp
  have hp: "h @ delete_palette p =
      (if ColorMapType header \<noteq> 0
           then [New Palette (max 256 (unat (ColorMapLength header))),
                 New ColorMap (unat (ColorMapEntrySize header) div 8
                               * unat (ColorMapLength header)),
                 Delete ColorMap, Delete Palette]
           else [])"
  proof (cases "ColorMapType header = 0")
    case True
    then show ?thesis using lp by (simp add: load_palette_none delete_palette_def)
  next
    case False
    from load_palette_events [OF False, of f2] lp False
    show ?thesis by (auto simp: delete_palette_def)
  qed
  have "loadImage maxdim f =
      Inr \<lparr>result = None,
           logged = [(''Unsupported TGA file type'', fileName f3, ELL_ERROR)],
           heap = h @ delete_palette p\<rparr>"
    using True by (simp add: loadImage_def rh f2_def [symmetric] lp px)
  then show ?thesis using load_palette_heap [OF lp] hp n3 by simp
qed

text \<open>
  A colour-mapped header with image type 4: the palette of 256 entries is allocated and
  released.
\<close>

theorem C7_unsupported_type_fails_witness:
  "read_header (tga [0, 1, 4, 0, 0, 1, 0, 24, 0, 0, 0, 0, 1, 0, 1, 0, 8, 0, 0x11, 0x22, 0x33, 0])
     = Inr ((palette_header 1 24)\<lparr>ImageType := 4\<rparr>,
            \<lparr>contents = [0, 1, 4, 0, 0, 1, 0, 24, 0, 0, 0, 0, 1, 0, 1, 0, 8, 0, 0x11, 0x22, 0x33, 0],
             pos = 18, fileName = ''a.tga''\<rparr>) \<and>
   (\<exists>r. loadImage 23000
          (tga [0, 1, 4, 0, 0, 1, 0, 24, 0, 0, 0, 0, 1, 0, 1, 0, 8, 0, 0x11, 0x22, 0x33, 0]) = Inr r \<and>
        result r = None \<and> allocated (heap r) = [] \<and>
        logged r = [(''Unsupported TGA file type'', ''a.tga'', ELL_ERROR)] \<and>
        heap r = [New Palette 256, New ColorMap 3, Delete ColorMap, Delete Palette])"
proof -
  let ?f = "tga [0, 1, 4, 0, 0, 1, 0, 24, 0, 0, 0, 0, 1, 0, 1, 0, 8, 0, 0x11, 0x22, 0x33, 0]"
  have rh: "read_header ?f
     = Inr ((palette_header 1 24)\<lparr>ImageType := 4\<rparr>,
            \<lparr>contents = [0, 1, 4, 0, 0, 1, 0, 24, 0, 0, 0, 0, 1, 0, 1, 0, 8, 0, 0x11, 0x22, 0x33, 0],
             pos = 18, fileName = ''a.tga''\<rparr>)"
    by code_simp
  have ty: "ImageType ((palette_header 1 24)\<lparr>ImageType := 4\<rparr>) \<noteq> 1 \<and>
      ImageType ((palette_header 1 24)\<lparr>ImageType := 4\<rparr>) \<noteq> 2 \<and>
      ImageType ((palette_header 1 24)\<lparr>ImageType := 4\<rparr>) \<noteq> 3 \<and>
      ImageType ((palette_header 1 24)\<lparr>ImageType := 4\<rparr>) \<noteq> 10"
    by simp
  from C7_unsupported_type_fails [OF rh ty, of 23000] rh show ?thesis
    by (simp add: palette_header_def tga_def)
qed

text \<open>
  Claim C8: the output format is chosen by the pixel depth alone (and by the grey type for
  a depth of 8), and any other pixel depth fails the decode with no image. The \<^verbatim>\<open>switch\<close>
  on the depth is reached only after the pixel data has been loaded, and its size
  \<^verbatim>\<open>ImageHeight * ImageWidth * (PixelDepth / 8)\<close> is computed in 32 bits before the depth
  has been looked at. The header 23000 x 23000 of type 2 with a depth of 40 bits passes the
  check of the dimensions; its 2645000000 bytes do not fit the \<^verbatim>\<open>s32\<close>, the size is
  negative, and \<^verbatim>\<open>new u8[imageSize]\<close> throws: the decode does not return at all, where the
  claim has it return no image. (Whenever the size is below \<open>2 ^ 31\<close>, the formats, the
  flip flag and the refusal of the other depths are those of the claim.)
\<close>

theorem C8_oversized_unsupported_depth_throws:
  "read_header (tga [0, 0, 2, 0, 0, 0, 0, 0, 0, 0, 0, 0, 0xD8, 0x59, 0xD8, 0x59, 40, 0])
     = Inr ((rle_header 23000 23000 40)\<lparr>ImageType := 2\<rparr>,
            \<lparr>contents = [0, 0, 2, 0, 0, 0, 0, 0, 0, 0, 0, 0, 0xD8, 0x59, 0xD8, 0x59, 40, 0],
             pos = 18, fileName = ''a.tga''\<rparr>) \<and>
   loadImage 23000 (tga [0, 0, 2, 0, 0, 0, 0, 0, 0, 0, 0, 0, 0xD8, 0x59, 0xD8, 0x59, 40, 0])
     = Inl BadArrayNewLength"
proof -
  let ?f = "tga [0, 0, 2, 0, 0, 0, 0, 0, 0, 0, 0, 0, 0xD8, 0x59, 0xD8, 0x59, 40, 0]"
  let ?h = "(rle_header 23000 23000 40)\<lparr>ImageType := 2\<rparr>"
  let ?f1 = "\<lparr>contents = [0, 0, 2, 0, 0, 0, 0, 0, 0, 0, 0, 0, 0xD8, 0x59, 0xD8, 0x59, 40, 0] :: u8 list,
             pos = 18, fileName = ''a.tga''\<rparr>"
  have rh: "read_header ?f = Inr (?h, ?f1)" by code_simp
  have chk: "checkImageDimensions 23000 (ucast (ImageWidth ?h)) (ucast (ImageHeight ?h))"
    by (simp add: checkImageDimensions_def rle_header_def)
  have lp: "load_palette ?h ?f1 = (None, ?f1, [])"
    by (simp add: load_palette_def rle_header_def)
  have sz: "imageSize ?h = 2645000000"
    by (simp add: imageSize_def bytesPerPixel_def rle_header_def)
  have neg: "sint (2645000000 :: u32) < 0" by simp
  have px: "load_pixels ?h ?f1 = Inl BadArrayNewLength"
    using neg by (simp add: load_pixels_def sz)
  have id: "IdLength ?h = 0" by (simp add: rle_header_def)
  have "loadImage 23000 ?f = Inl BadArrayNewLength"
    using chk by (simp add: loadImage_def rh id lp px)
  with rh show ?thesis by simp
qed

text \<open>
  Claim C9: a stream shorter than the footer is refused. The check zeroes the footer,
  reads into it and compares the signature field with \<^verbatim>\<open>strcmp\<close>; the length of the stream
  is never compared and the result of the seek is ignored. On a stream of 25 bytes that
  ends in the 17 characters of the signature the seek to \<open>-1\<close> is refused, the read starts
  at the beginning and delivers 25 bytes, and the last byte of the zeroed footer serves as
  the terminator of the signature: the stream is accepted.
\<close>

theorem C9_short_stream_accepted:
  "getSize \<lparr>contents = replicate 8 0 @ map of_char ''TRUEVISION-XFILE.'', pos = 0, fileName = ''a.tga''\<rparr> = 25 \<and>
   isALoadableFileFormat
     (Some \<lparr>contents = replicate 8 0 @ map of_char ''TRUEVISION-XFILE.'', pos = 0, fileName = ''a.tga''\<rparr>)
   = Inr True"
  by code_simp

end
